theory Spec2Isabelle
  imports Main "HOL-Library.Word"
begin

section \<open>The asynchronous inference pipeline (async_pipeline.cpp)\<close>

text \<open>
  The theory embeds the member functions of \<^verbatim>\<open>AsyncPipeline\<close>: \<^verbatim>\<open>waitForData\<close>,
  \<^verbatim>\<open>submitData\<close> with the completion callback it registers, \<^verbatim>\<open>getResult\<close> and
  \<^verbatim>\<open>getInferenceResult\<close>. Each member function is a function from the pipeline's
  fields to the returned value and the updated fields. The collaborators (the model
  adapter, the request pool, the result structures of the header) are not part of the
  source file; they are parameters or are modelled from the specification, as marked.
\<close>

subsection \<open>Data\<close>

text \<open>
  \<^verbatim>\<open>int64_t\<close>: a 64-bit word read as two's complement by \<open>sint\<close>. Addition on the
  word type wraps; \<^verbatim>\<open>++\<close> on an \<^verbatim>\<open>int64_t\<close> does so only in the two's complement
  reading, and is undefined at the largest value (see \<open>signedIncrement\<close> below).
\<close>

type_synonym int64_t = "64 word"

text \<open>
  Modelled from the spec: the result structures, declared in a header that is not among
  the source files. \<^verbatim>\<open>ResultBase\<close> carries the sequence number and the metadata handle;
  \<^verbatim>\<open>InferenceResult\<close> extends it by the internal model data handle and the map from
  output name to tensor snapshot. A result a model adapter's \<^verbatim>\<open>postprocess\<close> returns is
  any extension of \<^verbatim>\<open>ResultBase\<close>.
\<close>

record 'm ResultBase =
  frameId :: int64_t
  metaData :: 'm

record ('m, 'd, 'o) InferenceResult = "'m ResultBase" +
  internalModelData :: 'd
  outputsData :: "string \<rightharpoonup> 'o"

text \<open>
  The model adapter (\<^verbatim>\<open>ModelBase\<close>), an external collaborator: the three member
  functions the pipeline calls, taken as functions that return. A request is named by its
  index in the pool.
\<close>

record ('i, 'm, 'd, 'o, 'x) ModelBase =
  preprocess :: "'i \<Rightarrow> nat \<Rightarrow> 'd"
  getOutputsNames :: "string list"
  postprocess :: "('m, 'd, 'o) InferenceResult \<Rightarrow> ('m, 'x) ResultBase_scheme"

text \<open>
  Modelled from the spec: the request slot pool (\<^verbatim>\<open>RequestsPool\<close>), whose code is not among
  the source files. A fixed collection of slots, each idle or busy;
  \<^verbatim>\<open>getIdleRequest\<close> returns an idle slot and marks it busy, or returns none when all
  slots are busy; \<^verbatim>\<open>setRequestIdle\<close> marks a slot idle; \<^verbatim>\<open>isIdleRequestAvailable\<close> tells
  whether an idle slot exists.
\<close>

datatype slot = Idle | Busy

type_synonym RequestsPool = "slot list"

definition newRequestsPool :: "nat \<Rightarrow> RequestsPool" where
  "newRequestsPool maxAsyncRequests = replicate maxAsyncRequests Idle"

definition isIdleRequestAvailable :: "RequestsPool \<Rightarrow> bool" where
  "isIdleRequestAvailable pool = (Idle \<in> set pool)"

fun findIdle :: "RequestsPool \<Rightarrow> nat option" where
  "findIdle [] = None"
| "findIdle (Idle # pool) = Some 0"
| "findIdle (Busy # pool) = map_option Suc (findIdle pool)"

definition getIdleRequest :: "RequestsPool \<Rightarrow> nat option \<times> RequestsPool" where
  "getIdleRequest pool =
     (case findIdle pool of
        None \<Rightarrow> (None, pool)
      | Some request \<Rightarrow> (Some request, pool[request := Busy]))"

definition setRequestIdle :: "RequestsPool \<Rightarrow> nat \<Rightarrow> RequestsPool" where
  "setRequestIdle pool request = pool[request := Idle]"

text \<open>
  What the lambda passed to \<^verbatim>\<open>SetCompletionCallback\<close> captures by value besides the
  request itself: the sequence number, the internal model data and the metadata.
\<close>

record ('m, 'd) captured =
  cb_frameID :: int64_t
  cb_internalModelData :: 'd
  cb_metaData :: 'm

text \<open>
  The fields of \<^verbatim>\<open>AsyncPipeline\<close> that the member functions read and write. The pool's
  requests carry two more pieces of state of the execution backend: the callback set on
  each request (\<open>completionCallback\<close>) and the requests whose asynchronous execution was
  started and has not completed (\<open>started\<close>).
\<close>

record ('m, 'd, 'o, 'e) AsyncPipeline =
  requestsPool :: RequestsPool
  completionCallback :: "nat \<rightharpoonup> ('m, 'd) captured"
  started :: "nat set"
  completedInferenceResults :: "int64_t \<rightharpoonup> ('m, 'd, 'o) InferenceResult"
  callbackException :: "'e option"
  inputFrameId :: int64_t
  outputFrameId :: int64_t

text \<open>
  Modelled from the spec: the state after construction. The pool holds
  \<^verbatim>\<open>maxAsyncRequests\<close> idle slots (constructor, step 5); both cursors start at 0 and the
  exception slot is empty (member initialisers of the header, which is not among the
  source files).
\<close>

definition newAsyncPipeline :: "nat \<Rightarrow> ('m, 'd, 'o, 'e) AsyncPipeline" where
  "newAsyncPipeline maxAsyncRequests =
     \<lparr> requestsPool = newRequestsPool maxAsyncRequests,
       completionCallback = Map.empty,
       started = {},
       completedInferenceResults = Map.empty,
       callbackException = None,
       inputFrameId = 0,
       outputFrameId = 0 \<rparr>"

subsection \<open>Sequence numbers\<close>

text \<open>
  \<^verbatim>\<open>id++; if (id < 0) id = 0;\<close> as both \<^verbatim>\<open>submitData\<close> (on \<^verbatim>\<open>inputFrameId\<close>) and
  \<^verbatim>\<open>getInferenceResult\<close> (on \<^verbatim>\<open>outputFrameId\<close>) write it, in the two's complement
  reading of \<^verbatim>\<open>++\<close>. Below the largest \<^verbatim>\<open>int64_t\<close> this is what the source computes.
  At the largest value the source's \<^verbatim>\<open>++\<close> is signed overflow and has no defined
  result; the value this function has there (0) is the reading the reset is written for,
  not one the source guarantees. \<open>checkedIncrementFrameId\<close> below makes the overflow
  explicit.
\<close>

definition incrementFrameId :: "int64_t \<Rightarrow> int64_t" where
  "incrementFrameId fid = (let fid' = fid + 1 in if sint fid' < 0 then 0 else fid')"

subsection \<open>waitForData\<close>

text \<open>The predicate of the wait: the lambda passed to \<^verbatim>\<open>condVar.wait\<close>.\<close>

definition waitPredicate :: "('m, 'd, 'o, 'e) AsyncPipeline \<Rightarrow> bool" where
  "waitPredicate s \<longleftrightarrow>
     callbackException s \<noteq> None \<or>
     isIdleRequestAvailable (requestsPool s) \<or>
     completedInferenceResults s (outputFrameId s) \<noteq> None"

text \<open>
  \<^verbatim>\<open>condVar.wait(lock, pred)\<close> is \<^verbatim>\<open>while (!pred()) wait(lock);\<close>. The other threads
  change the fields while the caller waits, so the loop runs over the states the caller
  sees: the state at the call, then the state at each wake-up. The loop returns the first
  of them that satisfies the predicate, and \<open>None\<close> when the caller is still blocked
  after the last of them.
\<close>

fun condVar_wait :: "('s \<Rightarrow> bool) \<Rightarrow> 's list \<Rightarrow> 's option" where
  "condVar_wait pred [] = None"
| "condVar_wait pred (s # wakeups) = (if pred s then Some s else condVar_wait pred wakeups)"

text \<open>
  \<open>waitForData\<close>: \<open>None\<close> is a caller still blocked, \<open>Some (Inl e)\<close> the exception
  rethrown, \<open>Some (Inr ())\<close> the normal return.
\<close>

definition waitForData :: "('m, 'd, 'o, 'e) AsyncPipeline list \<Rightarrow> ('e + unit) option" where
  "waitForData observed =
     (case condVar_wait waitPredicate observed of
        None \<Rightarrow> None
      | Some s \<Rightarrow>
          (case callbackException s of
             Some e \<Rightarrow> Some (Inl e)
           | None \<Rightarrow> Some (Inr ())))"

subsection \<open>submitData and the completion callback\<close>

text \<open>
  \<open>submitData\<close> returns the value the source returns (\<open>-1\<close> on rejection) and the
  updated fields.
\<close>

definition submitData ::
  "('i, 'm, 'd, 'o, 'x) ModelBase \<Rightarrow> 'i \<Rightarrow> 'm \<Rightarrow> ('m, 'd, 'o, 'e) AsyncPipeline
     \<Rightarrow> int64_t \<times> ('m, 'd, 'o, 'e) AsyncPipeline" where
  "submitData model inputData md s =
     (let frameID = inputFrameId s in
      case getIdleRequest (requestsPool s) of
        (None, pool) \<Rightarrow> (- 1, s\<lparr>requestsPool := pool\<rparr>)
      | (Some request, pool) \<Rightarrow>
          let imd = preprocess model inputData request;
              s1 = s\<lparr>requestsPool := pool\<rparr>;
              s2 = s1\<lparr>completionCallback := (completionCallback s1)(request \<mapsto>
                      \<lparr>cb_frameID = frameID, cb_internalModelData = imd, cb_metaData = md\<rparr>)\<rparr>;
              s3 = s2\<lparr>inputFrameId := incrementFrameId (inputFrameId s2)\<rparr>;
              s4 = s3\<lparr>started := insert request (started s3)\<rparr>
          in (frameID, s4))"

text \<open>
  \<^verbatim>\<open>emplace\<close> of the standard maps inserts only when the key is absent.
\<close>

definition emplace :: "('k \<rightharpoonup> 'v) \<Rightarrow> 'k \<Rightarrow> 'v \<Rightarrow> ('k \<rightharpoonup> 'v)" where
  "emplace m k v = (case m k of None \<Rightarrow> m(k \<mapsto> v) | Some _ \<Rightarrow> m)"

text \<open>
  The loop of the callback over the output names. \<open>getBlob\<close> is what the request returns
  for a name at completion: a tensor, or an exception thrown while it is read or copied.
  The first exception ends the loop, as it leaves the \<^verbatim>\<open>try\<close> block.
\<close>

fun copyOutputs ::
  "(string \<Rightarrow> 'e + 'o) \<Rightarrow> string list \<Rightarrow> (string \<rightharpoonup> 'o) \<Rightarrow> 'e + (string \<rightharpoonup> 'o)" where
  "copyOutputs getBlob [] outs = Inr outs"
| "copyOutputs getBlob (outName # names) outs =
     (case getBlob outName of
        Inl e \<Rightarrow> Inl e
      | Inr blob \<Rightarrow> copyOutputs getBlob names (emplace outs outName blob))"

text \<open>
  The body of the lambda registered by \<open>submitData\<close>, for the request and the values it
  captured. The \<^verbatim>\<open>catch (...)\<close> stores the exception only when the slot is empty.
  The exceptions of the \<^verbatim>\<open>try\<close> block are those of reading and copying the outputs.
  The \<^verbatim>\<open>condVar.notify_one()\<close> that ends the lambda changes no field: it is a wake-up
  of \<open>waitForData\<close>, which sees the fields as the callback left them.
\<close>

definition callback ::
  "('i, 'm, 'd, 'o, 'x) ModelBase \<Rightarrow> (string \<Rightarrow> 'e + 'o) \<Rightarrow> nat \<Rightarrow> ('m, 'd) captured
     \<Rightarrow> ('m, 'd, 'o, 'e) AsyncPipeline \<Rightarrow> ('m, 'd, 'o, 'e) AsyncPipeline" where
  "callback model getBlob request c s =
     (case copyOutputs getBlob (getOutputsNames model) Map.empty of
        Inr outs \<Rightarrow>
          (let result = \<lparr> frameId = cb_frameID c, metaData = cb_metaData c,
                          internalModelData = cb_internalModelData c, outputsData = outs \<rparr>;
               s1 = s\<lparr>completedInferenceResults :=
                        emplace (completedInferenceResults s) (cb_frameID c) result\<rparr>
           in s1\<lparr>requestsPool := setRequestIdle (requestsPool s1) request\<rparr>)
      | Inl e \<Rightarrow>
          (if callbackException s = None then s\<lparr>callbackException := Some e\<rparr> else s))"

text \<open>
  Modelled from the spec: the execution backend invokes the callback set on a request
  exactly once per \<^verbatim>\<open>StartAsync\<close>. A completion of a request that was not started does
  nothing.
\<close>

definition completion ::
  "('i, 'm, 'd, 'o, 'x) ModelBase \<Rightarrow> nat \<Rightarrow> (string \<Rightarrow> 'e + 'o)
     \<Rightarrow> ('m, 'd, 'o, 'e) AsyncPipeline \<Rightarrow> ('m, 'd, 'o, 'e) AsyncPipeline" where
  "completion model request getBlob s =
     (if request \<in> started s then
        (case completionCallback s request of
           None \<Rightarrow> s
         | Some c \<Rightarrow> callback model getBlob request c (s\<lparr>started := started s - {request}\<rparr>))
      else s)"

subsection \<open>getInferenceResult and getResult\<close>

text \<open>
  \<open>IsEmpty\<close> and the default-constructed result \<open>defaultResult\<close> come from the header that
  is not among the source files; they are parameters.
\<close>

definition getInferenceResult ::
  "(('m, 'd, 'o) InferenceResult \<Rightarrow> bool) \<Rightarrow> ('m, 'd, 'o) InferenceResult
     \<Rightarrow> ('m, 'd, 'o, 'e) AsyncPipeline
     \<Rightarrow> ('m, 'd, 'o) InferenceResult \<times> ('m, 'd, 'o, 'e) AsyncPipeline" where
  "getInferenceResult IsEmpty defaultResult s =
     (let (retVal, s1) =
            (case completedInferenceResults s (outputFrameId s) of
               None \<Rightarrow> (defaultResult, s)
             | Some r \<Rightarrow>
                 (r, s\<lparr>completedInferenceResults :=
                         (completedInferenceResults s)(outputFrameId s := None)\<rparr>))
      in if \<not> IsEmpty retVal
         then (retVal, s1\<lparr>outputFrameId := incrementFrameId (frameId retVal)\<rparr>)
         else (retVal, s1))"

text \<open>
  \<open>getResult\<close>: \<open>None\<close> is the null pointer. The assignment
  \<^verbatim>\<open>*result = static_cast<ResultBase&>(infResult)\<close> copies the \<^verbatim>\<open>ResultBase\<close> fields
  of the inference result into the object \<^verbatim>\<open>postprocess\<close> made.
\<close>

definition getResult ::
  "('i, 'm, 'd, 'o, 'x) ModelBase \<Rightarrow> (('m, 'd, 'o) InferenceResult \<Rightarrow> bool)
     \<Rightarrow> ('m, 'd, 'o) InferenceResult \<Rightarrow> ('m, 'd, 'o, 'e) AsyncPipeline
     \<Rightarrow> ('m, 'x) ResultBase_scheme option \<times> ('m, 'd, 'o, 'e) AsyncPipeline" where
  "getResult model IsEmpty defaultResult s =
     (let (infResult, s1) = getInferenceResult IsEmpty defaultResult s in
      if IsEmpty infResult then (None, s1)
      else (Some ((postprocess model infResult)
                    \<lparr>frameId := frameId infResult, metaData := metaData infResult\<rparr>), s1))"

subsection \<open>Signed overflow\<close>

text \<open>
  \<^verbatim>\<open>++\<close> on an \<^verbatim>\<open>int64_t\<close> as the language defines it: one more, below the largest
  value. At the largest value it is signed overflow, which is undefined behaviour:
  \<open>None\<close>. The source then says nothing of the cursor, and a compiler may take the
  overflow not to happen and drop the test \<^verbatim>\<open>< 0\<close> that follows it.
\<close>

definition signedIncrement :: "int64_t \<Rightarrow> int64_t option" where
  "signedIncrement fid = (if fid = 0x7FFFFFFFFFFFFFFF then None else Some (fid + 1))"

text \<open>\<^verbatim>\<open>id++; if (id < 0) id = 0;\<close> with the overflow explicit.\<close>

definition checkedIncrementFrameId :: "int64_t \<Rightarrow> int64_t option" where
  "checkedIncrementFrameId fid =
     (case signedIncrement fid of
        None \<Rightarrow> None
      | Some fid' \<Rightarrow> Some (if sint fid' < 0 then 0 else fid'))"

text \<open>
  \<open>submitData\<close>, \<open>getInferenceResult\<close> and \<open>getResult\<close> once more, statement by
  statement, with the overflow explicit: \<open>None\<close> is a call whose increment overflows.
\<close>

definition submitData_checked ::
  "('i, 'm, 'd, 'o, 'x) ModelBase \<Rightarrow> 'i \<Rightarrow> 'm \<Rightarrow> ('m, 'd, 'o, 'e) AsyncPipeline
     \<Rightarrow> (int64_t \<times> ('m, 'd, 'o, 'e) AsyncPipeline) option" where
  "submitData_checked model inputData md s =
     (let frameID = inputFrameId s in
      case getIdleRequest (requestsPool s) of
        (None, pool) \<Rightarrow> Some (- 1, s\<lparr>requestsPool := pool\<rparr>)
      | (Some request, pool) \<Rightarrow>
          let imd = preprocess model inputData request;
              s1 = s\<lparr>requestsPool := pool\<rparr>;
              s2 = s1\<lparr>completionCallback := (completionCallback s1)(request \<mapsto>
                      \<lparr>cb_frameID = frameID, cb_internalModelData = imd, cb_metaData = md\<rparr>)\<rparr>
          in (case checkedIncrementFrameId (inputFrameId s2) of
                None \<Rightarrow> None
              | Some fid \<Rightarrow>
                  let s3 = s2\<lparr>inputFrameId := fid\<rparr>;
                      s4 = s3\<lparr>started := insert request (started s3)\<rparr>
                  in Some (frameID, s4)))"

definition getInferenceResult_checked ::
  "(('m, 'd, 'o) InferenceResult \<Rightarrow> bool) \<Rightarrow> ('m, 'd, 'o) InferenceResult
     \<Rightarrow> ('m, 'd, 'o, 'e) AsyncPipeline
     \<Rightarrow> (('m, 'd, 'o) InferenceResult \<times> ('m, 'd, 'o, 'e) AsyncPipeline) option" where
  "getInferenceResult_checked IsEmpty defaultResult s =
     (let (retVal, s1) =
            (case completedInferenceResults s (outputFrameId s) of
               None \<Rightarrow> (defaultResult, s)
             | Some r \<Rightarrow>
                 (r, s\<lparr>completedInferenceResults :=
                         (completedInferenceResults s)(outputFrameId s := None)\<rparr>))
      in if \<not> IsEmpty retVal
         then (case checkedIncrementFrameId (frameId retVal) of
                 None \<Rightarrow> None
               | Some fid \<Rightarrow> Some (retVal, s1\<lparr>outputFrameId := fid\<rparr>))
         else Some (retVal, s1))"

definition getResult_checked ::
  "('i, 'm, 'd, 'o, 'x) ModelBase \<Rightarrow> (('m, 'd, 'o) InferenceResult \<Rightarrow> bool)
     \<Rightarrow> ('m, 'd, 'o) InferenceResult \<Rightarrow> ('m, 'd, 'o, 'e) AsyncPipeline
     \<Rightarrow> (('m, 'x) ResultBase_scheme option \<times> ('m, 'd, 'o, 'e) AsyncPipeline) option" where
  "getResult_checked model IsEmpty defaultResult s =
     (case getInferenceResult_checked IsEmpty defaultResult s of
        None \<Rightarrow> None
      | Some (infResult, s1) \<Rightarrow>
          Some (if IsEmpty infResult then (None, s1)
                else (Some ((postprocess model infResult)
                              \<lparr>frameId := frameId infResult, metaData := metaData infResult\<rparr>),
                      s1)))"

subsection \<open>Runs of the pipeline\<close>

text \<open>
  What happens to a pipeline, in the order the mutex serialises it: the caller submits,
  a started request completes, the caller asks for a result. A run records what each
  call returned.
\<close>

datatype ('i, 'm, 'e, 'o) event =
  SubmitData 'i 'm
| Completion nat "string \<Rightarrow> 'e + 'o"
| GetResult

datatype ('m, 'x) observation =
  Submitted int64_t 'm
| Completed
| Got "('m, 'x) ResultBase_scheme option"

definition exec ::
  "('i, 'm, 'd, 'o, 'x) ModelBase \<Rightarrow> (('m, 'd, 'o) InferenceResult \<Rightarrow> bool)
     \<Rightarrow> ('m, 'd, 'o) InferenceResult \<Rightarrow> ('i, 'm, 'e, 'o) event
     \<Rightarrow> ('m, 'd, 'o, 'e) AsyncPipeline
     \<Rightarrow> ('m, 'x) observation \<times> ('m, 'd, 'o, 'e) AsyncPipeline" where
  "exec model IsEmpty defaultResult ev s =
     (case ev of
        SubmitData inputData md \<Rightarrow>
          (let (r, s') = submitData model inputData md s in (Submitted r md, s'))
      | Completion request getBlob \<Rightarrow> (Completed, completion model request getBlob s)
      | GetResult \<Rightarrow>
          (let (r, s') = getResult model IsEmpty defaultResult s in (Got r, s')))"

fun run ::
  "('i, 'm, 'd, 'o, 'x) ModelBase \<Rightarrow> (('m, 'd, 'o) InferenceResult \<Rightarrow> bool)
     \<Rightarrow> ('m, 'd, 'o) InferenceResult \<Rightarrow> ('i, 'm, 'e, 'o) event list
     \<Rightarrow> ('m, 'd, 'o, 'e) AsyncPipeline
     \<Rightarrow> ('m, 'x) observation list \<times> ('m, 'd, 'o, 'e) AsyncPipeline" where
  "run model IsEmpty defaultResult [] s = ([], s)"
| "run model IsEmpty defaultResult (ev # evs) s =
     (let (ob, s1) = exec model IsEmpty defaultResult ev s;
          (obs, s2) = run model IsEmpty defaultResult evs s1
      in (ob # obs, s2))"

text \<open>The accepted submissions of a run and the results it retrieved, in order.\<close>

fun accepted :: "('m, 'x) observation list \<Rightarrow> (int64_t \<times> 'm) list" where
  "accepted [] = []"
| "accepted (Submitted r md # obs) = (if r = - 1 then accepted obs else (r, md) # accepted obs)"
| "accepted (ob # obs) = accepted obs"

fun retrieved :: "('m, 'x) observation list \<Rightarrow> ('m, 'x) ResultBase_scheme list" where
  "retrieved [] = []"
| "retrieved (Got (Some r) # obs) = r # retrieved obs"
| "retrieved (ob # obs) = retrieved obs"

subsection \<open>Invariant of the fields\<close>

text \<open>
  What every run keeps true of the fields: the cursors are non-negative, a stored result
  sits under its own sequence number, which is non-negative, and carries one tensor per
  output name, and every callback captured a non-negative sequence number.
\<close>

definition wellformed :: "string list \<Rightarrow> ('m, 'd, 'o, 'e) AsyncPipeline \<Rightarrow> bool" where
  "wellformed names s \<longleftrightarrow>
     0 \<le> sint (inputFrameId s) \<and> 0 \<le> sint (outputFrameId s) \<and>
     (\<forall>k r. completedInferenceResults s k = Some r \<longrightarrow>
        frameId r = k \<and> 0 \<le> sint k \<and> (names \<noteq> [] \<longrightarrow> outputsData r \<noteq> Map.empty)) \<and>
     (\<forall>request c. completionCallback s request = Some c \<longrightarrow> 0 \<le> sint (cb_frameID c))"

fun isSubmitData :: "('i, 'm, 'e, 'o) event \<Rightarrow> bool" where
  "isSubmitData (SubmitData inputData md) = True"
| "isSubmitData ev = False"

subsection \<open>A concrete pipeline\<close>

text \<open>
  A model adapter with one output, a header whose \<^verbatim>\<open>IsEmpty\<close> tests the sign of the
  sequence number and whose default result has sequence number \<open>-1\<close>, and requests whose
  tensors are read successfully or throw. The theorems are evaluated on them.
\<close>

definition exampleModel :: "(nat, nat, nat, nat, unit) ModelBase" where
  "exampleModel =
     \<lparr> preprocess = (\<lambda>inputData request. inputData + request),
       getOutputsNames = [''detection_out''],
       postprocess = (\<lambda>r. \<lparr> frameId = - 1, metaData = 0 \<rparr>) \<rparr>"

definition exampleIsEmpty :: "(nat, nat, nat) InferenceResult \<Rightarrow> bool" where
  "exampleIsEmpty r \<longleftrightarrow> sint (frameId r) < 0"

definition exampleDefaultResult :: "(nat, nat, nat) InferenceResult" where
  "exampleDefaultResult =
     \<lparr> frameId = - 1, metaData = 0, internalModelData = 0, outputsData = Map.empty \<rparr>"

definition blobReady :: "string \<Rightarrow> nat + nat" where
  "blobReady outName = Inr 7"

definition blobThrows :: "string \<Rightarrow> nat + nat" where
  "blobThrows outName = Inl 13"

definition blobThrowsAgain :: "string \<Rightarrow> nat + nat" where
  "blobThrowsAgain outName = Inl 14"

definition examplePipeline :: "nat \<Rightarrow> (nat, nat, nat, nat) AsyncPipeline" where
  "examplePipeline n = newAsyncPipeline n"

text \<open>
  A pipeline whose cursors stand at the largest \<^verbatim>\<open>int64_t\<close>, with the result for that
  sequence number pending.
\<close>

definition maxCursorPipeline :: "(nat, nat, nat, nat) AsyncPipeline" where
  "maxCursorPipeline =
     (examplePipeline 2)
       \<lparr> completedInferenceResults :=
           [0x7FFFFFFFFFFFFFFF \<mapsto>
              \<lparr> frameId = 0x7FFFFFFFFFFFFFFF, metaData = 5, internalModelData = 0,
                outputsData = [''detection_out'' \<mapsto> 7] \<rparr>],
         inputFrameId := 0x7FFFFFFFFFFFFFFF,
         outputFrameId := 0x7FFFFFFFFFFFFFFF \<rparr>"

subsection \<open>Invariants of runs without wrap-around\<close>

text \<open>
  While fewer than \<open>2^63\<close> submissions were accepted, the sequence numbers are the
  numbers of the accepted submissions. \<open>counted mds k s\<close>: \<open>mds\<close> are the metadata of the
  accepted submissions in order, \<open>k\<close> results were retrieved, the cursors stand at these
  counts, and every pending result and every captured callback carries the number and the
  metadata of one accepted submission.
\<close>

definition counted ::
  "'m list \<Rightarrow> nat \<Rightarrow> ('m, 'd, 'o, 'e) AsyncPipeline \<Rightarrow> bool" where
  "counted mds k s \<longleftrightarrow>
     length mds < 2 ^ 63 \<and> k \<le> length mds \<and>
     inputFrameId s = word_of_nat (length mds) \<and> outputFrameId s = word_of_nat k \<and>
     (\<forall>key r. completedInferenceResults s key = Some r \<longrightarrow>
        (\<exists>j < length mds. key = word_of_nat j \<and> frameId r = word_of_nat j \<and> metaData r = mds ! j)) \<and>
     (\<forall>request c. completionCallback s request = Some c \<longrightarrow>
        (\<exists>j < length mds. cb_frameID c = word_of_nat j \<and> cb_metaData c = mds ! j))"

text \<open>The same for the record of a run: what it accepted and what it retrieved.\<close>

definition history_ok ::
  "('m, 'x) observation list \<Rightarrow> ('m, 'd, 'o, 'e) AsyncPipeline \<Rightarrow> bool" where
  "history_ok obs s \<longleftrightarrow>
     counted (map snd (accepted obs)) (length (retrieved obs)) s \<and>
     map fst (accepted obs) = map word_of_nat [0..<length (accepted obs)] \<and>
     map (\<lambda>r. (frameId r, metaData r)) (retrieved obs) =
       map (\<lambda>j. (word_of_nat j, map snd (accepted obs) ! j)) [0..<length (retrieved obs)]"

text \<open>
  \<open>pending k N s\<close>: every sequence number from \<open>k\<close> up to \<open>N\<close> has its result in
  the pending results or its request still running, and every running request holds a
  busy slot.
\<close>

definition pending :: "nat \<Rightarrow> nat \<Rightarrow> ('m, 'd, 'o, 'e) AsyncPipeline \<Rightarrow> bool" where
  "pending k N s \<longleftrightarrow>
     (\<forall>j. k \<le> j \<and> j < N \<longrightarrow>
        completedInferenceResults s (word_of_nat j) \<noteq> None \<or>
        (\<exists>request \<in> started s. \<exists>c.
           completionCallback s request = Some c \<and> cb_frameID c = word_of_nat j)) \<and>
     (\<forall>request \<in> started s.
        request < length (requestsPool s) \<and> requestsPool s ! request = Busy)"

subsection \<open>Pool occupancy\<close>

fun isCompletion :: "('i, 'm, 'e, 'o) event \<Rightarrow> bool" where
  "isCompletion (Completion request getBlob) = True"
| "isCompletion ev = False"

text \<open>
  Every started request holds a busy slot of the pool and has its callback set.
\<close>

definition slotsHeld :: "('m, 'd, 'o, 'e) AsyncPipeline \<Rightarrow> bool" where
  "slotsHeld s \<longleftrightarrow>
     (\<forall>request \<in> started s.
        request < length (requestsPool s) \<and> requestsPool s ! request = Busy \<and>
        completionCallback s request \<noteq> None)"

subsection \<open>The lock discipline\<close>

text \<open>
  Where the member functions take and release the mutex \<^verbatim>\<open>mtx\<close> and where they read and
  write the shared fields, in program order. The slot flags are the pool's; the pool is
  reached through \<^verbatim>\<open>requestsPool\<close>, and whatever lock the pool has of its own is not
  \<^verbatim>\<open>mtx\<close>.
\<close>

datatype shared = CompletedResults | SlotFlags | InputCursor | OutputCursor | ExceptionSlot

datatype action = Acquire | Release | Read shared | Write shared

text \<open>
  The accesses of a sequence of actions made while the mutex is not held; \<open>held\<close> tells
  whether it is held at the start.
\<close>

fun unprotected :: "bool \<Rightarrow> action list \<Rightarrow> action list" where
  "unprotected held [] = []"
| "unprotected held (Acquire # acts) = unprotected True acts"
| "unprotected held (Release # acts) = unprotected False acts"
| "unprotected held (act # acts) = (if held then [] else [act]) @ unprotected held acts"

text \<open>
  One evaluation of the predicate of \<^verbatim>\<open>condVar.wait\<close>: the disjunction stops at its
  first true operand.
\<close>

definition waitPredicate_actions :: "('m, 'd, 'o, 'e) AsyncPipeline \<Rightarrow> action list" where
  "waitPredicate_actions s =
     Read ExceptionSlot #
     (if callbackException s \<noteq> None then []
      else Read SlotFlags #
        (if isIdleRequestAvailable (requestsPool s) then []
         else [Read OutputCursor, Read CompletedResults]))"

text \<open>
  \<^verbatim>\<open>waitForData\<close> over the states the caller sees: the \<^verbatim>\<open>unique_lock\<close> takes the
  mutex, the wait evaluates the predicate with the mutex held and releases the mutex while
  it blocks, taking it again at each wake-up; after the wait the exception slot is tested
  and, when set, read again for the rethrow; leaving the function releases the mutex.
\<close>

fun waitForData_actions :: "('m, 'd, 'o, 'e) AsyncPipeline list \<Rightarrow> action list" where
  "waitForData_actions [] = []"
| "waitForData_actions (s # wakeups) =
     Acquire # waitPredicate_actions s @
     (if waitPredicate s
      then Read ExceptionSlot #
           (if callbackException s \<noteq> None then [Read ExceptionSlot] else []) @ [Release]
      else Release # waitForData_actions wakeups)"

text \<open>
  \<^verbatim>\<open>submitData\<close> takes no lock: it reads \<^verbatim>\<open>inputFrameId\<close>, asks the pool for an idle
  request (which marks it busy) and, when it got one, increments \<^verbatim>\<open>inputFrameId\<close>,
  tests its sign and resets it on overflow.
\<close>

definition submitData_actions :: "('m, 'd, 'o, 'e) AsyncPipeline \<Rightarrow> action list" where
  "submitData_actions s =
     Read InputCursor # Read SlotFlags #
     (if isIdleRequestAvailable (requestsPool s)
      then [Write SlotFlags, Read InputCursor, Write InputCursor, Read InputCursor] @
           (if sint (inputFrameId s + 1) < 0 then [Write InputCursor] else [])
      else [])"

text \<open>
  The completion callback: the \<^verbatim>\<open>lock_guard\<close> spans the whole \<^verbatim>\<open>try\<close> and
  \<^verbatim>\<open>catch\<close>; the \<^verbatim>\<open>try\<close> inserts into the pending results and sets the request
  idle, the \<^verbatim>\<open>catch\<close> tests the exception slot and stores into it when it is empty.
\<close>

definition callback_actions ::
  "('i, 'm, 'd, 'o, 'x) ModelBase \<Rightarrow> (string \<Rightarrow> 'e + 'o) \<Rightarrow> ('m, 'd, 'o, 'e) AsyncPipeline
     \<Rightarrow> action list" where
  "callback_actions model getBlob s =
     Acquire #
     (case copyOutputs getBlob (getOutputsNames model) Map.empty of
        Inr outs \<Rightarrow> [Read CompletedResults, Write CompletedResults, Write SlotFlags]
      | Inl e \<Rightarrow>
          Read ExceptionSlot # (if callbackException s = None then [Write ExceptionSlot] else [])) @
     [Release]"

text \<open>
  \<^verbatim>\<open>getInferenceResult\<close>: the \<^verbatim>\<open>lock_guard\<close> spans the inner block only, the lookup
  under \<^verbatim>\<open>outputFrameId\<close> and the move and erase of a found entry; the update of
  \<^verbatim>\<open>outputFrameId\<close> follows the block. \<^verbatim>\<open>getResult\<close> adds no access of its own.
\<close>

definition getInferenceResult_actions ::
  "(('m, 'd, 'o) InferenceResult \<Rightarrow> bool) \<Rightarrow> ('m, 'd, 'o) InferenceResult
     \<Rightarrow> ('m, 'd, 'o, 'e) AsyncPipeline \<Rightarrow> action list" where
  "getInferenceResult_actions IsEmpty defaultResult s =
     [Acquire, Read OutputCursor, Read CompletedResults] @
     (case completedInferenceResults s (outputFrameId s) of
        None \<Rightarrow> []
      | Some r \<Rightarrow> [Read CompletedResults, Write CompletedResults]) @
     [Release] @
     (let retVal = fst (getInferenceResult IsEmpty defaultResult s) in
      if \<not> IsEmpty retVal
      then [Write OutputCursor, Read OutputCursor, Write OutputCursor, Read OutputCursor] @
           (if sint (frameId retVal + 1) < 0 then [Write OutputCursor] else [])
      else [])"

section \<open>Lemmas\<close>

subsection \<open>Sequence numbers\<close>

lemma incr_nonneg: "0 \<le> sint (incrementFrameId c)"
  by (simp add: incrementFrameId_def Let_def)

lemma sint_of_nat64:
  assumes "j < 2 ^ 63"
  shows "sint (word_of_nat j :: int64_t) = int j"
proof -
  have "int j < 2 ^ 63"
    using assms by (metis of_nat_less_iff of_nat_numeral of_nat_power)
  then have "signed_take_bit 63 (int j) = int j"
    by (intro signed_take_bit_int_eq_self) auto
  moreover have "sint (word_of_nat j :: int64_t) = signed_take_bit 63 (int j)"
    using sint_sbintrunc' [where 'a = 64 and bin = "int j"] by simp
  ultimately show ?thesis by simp
qed

lemma of_nat_inj64:
  "i < 2 ^ 63 \<Longrightarrow> j < 2 ^ 63 \<Longrightarrow> (word_of_nat i :: int64_t) = word_of_nat j \<Longrightarrow> i = j"
  using sint_of_nat64 [of i] sint_of_nat64 [of j] by (metis of_nat_eq_iff)

lemma sint_max: "sint (c :: int64_t) = 0x7FFFFFFFFFFFFFFF \<Longrightarrow> c = 0x7FFFFFFFFFFFFFFF"
proof -
  assume "sint c = 0x7FFFFFFFFFFFFFFF"
  then have "sint c = sint (0x7FFFFFFFFFFFFFFF :: int64_t)" by simp
  then show ?thesis by (rule iffD2 [OF word_eq_iff_signed])
qed

lemma sint_succ:
  assumes "0 \<le> sint (c :: int64_t)" and "c \<noteq> 0x7FFFFFFFFFFFFFFF"
  shows "sint (c + 1) = sint c + 1"
proof -
  have "sint c < 2 ^ 63" using sint_lt [of c] by simp
  moreover have "sint c \<noteq> 0x7FFFFFFFFFFFFFFF" using assms(2) sint_max by blast
  ultimately have "sint c + 1 < 2 ^ 63" by simp
  then have "signed_take_bit 63 (sint c + 1) = sint c + 1"
    using assms(1) by (intro signed_take_bit_int_eq_self) auto
  then show ?thesis by (simp add: sint_word_add)
qed

lemma incr_of_nat:
  assumes "Suc j < 2 ^ 63"
  shows "incrementFrameId (word_of_nat j) = word_of_nat (Suc j)"
proof -
  have "sint (word_of_nat (Suc j) :: int64_t) = int (Suc j)"
    using assms by (rule sint_of_nat64)
  then have "\<not> sint ((word_of_nat j :: int64_t) + 1) < 0" by (simp add: add.commute)
  then show ?thesis by (simp add: incrementFrameId_def Let_def)
qed

subsection \<open>The pool and submitData\<close>

lemma findIdle_None: "findIdle pool = None \<longleftrightarrow> Idle \<notin> set pool"
  by (induction pool rule: findIdle.induct) auto

lemma findIdle_Some: "findIdle pool = Some i \<Longrightarrow> i < length pool \<and> pool ! i = Idle"
  by (induction pool arbitrary: i rule: findIdle.induct) auto

lemma getIdleRequest_none:
  "\<not> isIdleRequestAvailable pool \<Longrightarrow> getIdleRequest pool = (None, pool)"
  by (simp add: getIdleRequest_def isIdleRequestAvailable_def findIdle_None [symmetric])

lemma getIdleRequest_some:
  assumes "isIdleRequestAvailable pool"
  obtains request where "getIdleRequest pool = (Some request, pool[request := Busy])"
    and "request < length pool" and "pool ! request = Idle"
proof -
  from assms obtain i where i: "findIdle pool = Some i"
    using findIdle_None [of pool] by (auto simp: isIdleRequestAvailable_def)
  with findIdle_Some [OF i] that [of i] show ?thesis
    by (simp add: getIdleRequest_def)
qed

lemma submitData_rejected:
  "\<not> isIdleRequestAvailable (requestsPool s) \<Longrightarrow> submitData model inputData md s = (- 1, s)"
  by (simp add: submitData_def getIdleRequest_none)

lemma submitData_accepted:
  assumes "isIdleRequestAvailable (requestsPool s)"
  obtains request where "request < length (requestsPool s)" and "requestsPool s ! request = Idle"
    and "submitData model inputData md s =
      (inputFrameId s,
       s\<lparr>requestsPool := (requestsPool s)[request := Busy],
         completionCallback := (completionCallback s)(request \<mapsto>
            \<lparr>cb_frameID = inputFrameId s,
             cb_internalModelData = preprocess model inputData request,
             cb_metaData = md\<rparr>),
         inputFrameId := incrementFrameId (inputFrameId s),
         started := insert request (started s)\<rparr>)"
proof -
  from assms obtain request where
    "getIdleRequest (requestsPool s) = (Some request, (requestsPool s)[request := Busy])"
    "request < length (requestsPool s)" "requestsPool s ! request = Idle"
    by (rule getIdleRequest_some)
  with that [of request] show ?thesis
    by (simp add: submitData_def Let_def)
qed

subsection \<open>Retrieval and completion\<close>

lemma getResult_absent:
  "completedInferenceResults s (outputFrameId s) = None \<Longrightarrow> IsEmpty defaultResult \<Longrightarrow>
   getResult model IsEmpty defaultResult s = (None, s)"
  by (simp add: getResult_def getInferenceResult_def)

lemma getResult_present:
  "completedInferenceResults s (outputFrameId s) = Some r \<Longrightarrow> \<not> IsEmpty r \<Longrightarrow>
   getResult model IsEmpty defaultResult s =
     (Some ((postprocess model r)\<lparr>frameId := frameId r, metaData := metaData r\<rparr>),
      s\<lparr>completedInferenceResults := (completedInferenceResults s)(outputFrameId s := None),
        outputFrameId := incrementFrameId (frameId r)\<rparr>)"
  by (simp add: getResult_def getInferenceResult_def)

lemma getResult_present_empty:
  "completedInferenceResults s (outputFrameId s) = Some r \<Longrightarrow> IsEmpty r \<Longrightarrow>
   getResult model IsEmpty defaultResult s =
     (None, s\<lparr>completedInferenceResults := (completedInferenceResults s)(outputFrameId s := None)\<rparr>)"
  by (simp add: getResult_def getInferenceResult_def)

lemma copyOutputs_dom:
  "copyOutputs getBlob names outs = Inr outs' \<Longrightarrow> dom outs' = dom outs \<union> set names"
  by (induction names arbitrary: outs) (auto simp: emplace_def split: sum.splits option.splits)

lemma copyOutputs_nonempty:
  "copyOutputs getBlob names Map.empty = Inr outs \<Longrightarrow> names \<noteq> [] \<Longrightarrow> outs \<noteq> Map.empty"
  using copyOutputs_dom [of getBlob names Map.empty outs] by auto

lemma completion_idle:
  "request \<notin> started s \<or> completionCallback s request = None \<Longrightarrow> completion model request getBlob s = s"
  by (auto simp: completion_def)

lemma completion_throws:
  "request \<in> started s \<Longrightarrow> completionCallback s request = Some c \<Longrightarrow>
   copyOutputs getBlob (getOutputsNames model) Map.empty = Inl e \<Longrightarrow>
   completion model request getBlob s =
     s\<lparr>started := started s - {request},
       callbackException := (case callbackException s of None \<Rightarrow> Some e | Some e0 \<Rightarrow> Some e0)\<rparr>"
  by (auto simp: completion_def callback_def split: option.splits)

lemma completion_succeeds:
  "request \<in> started s \<Longrightarrow> completionCallback s request = Some c \<Longrightarrow>
   copyOutputs getBlob (getOutputsNames model) Map.empty = Inr outs \<Longrightarrow>
   completion model request getBlob s =
     s\<lparr>started := started s - {request},
       completedInferenceResults := emplace (completedInferenceResults s) (cb_frameID c)
         \<lparr> frameId = cb_frameID c, metaData = cb_metaData c,
           internalModelData = cb_internalModelData c, outputsData = outs \<rparr>,
       requestsPool := setRequestIdle (requestsPool s) request\<rparr>"
  by (auto simp: completion_def callback_def Let_def split: option.splits)

subsection \<open>Every run keeps the fields well formed\<close>

lemma wellformed_new: "wellformed names (newAsyncPipeline n)"
  by (simp add: wellformed_def newAsyncPipeline_def)

lemma submitData_wellformed:
  assumes "wellformed names s"
  shows "wellformed names (snd (submitData model inputData md s))"
proof (cases "isIdleRequestAvailable (requestsPool s)")
  case False
  then show ?thesis using assms by (simp add: submitData_rejected)
next
  case True
  then obtain request where
    "submitData model inputData md s =
      (inputFrameId s,
       s\<lparr>requestsPool := (requestsPool s)[request := Busy],
         completionCallback := (completionCallback s)(request \<mapsto>
            \<lparr>cb_frameID = inputFrameId s,
             cb_internalModelData = preprocess model inputData request,
             cb_metaData = md\<rparr>),
         inputFrameId := incrementFrameId (inputFrameId s),
         started := insert request (started s)\<rparr>)"
    by (rule submitData_accepted)
  then show ?thesis using assms by (auto simp: wellformed_def incr_nonneg)
qed

lemma completion_wellformed:
  assumes "wellformed (getOutputsNames model) s"
  shows "wellformed (getOutputsNames model) (completion model request getBlob s)"
proof (cases "request \<in> started s")
  case False
  then show ?thesis using assms by (simp add: completion_idle)
next
  case True
  show ?thesis
  proof (cases "completionCallback s request")
    case None
    then show ?thesis using assms by (simp add: completion_idle)
  next
    case (Some c)
    show ?thesis
    proof (cases "copyOutputs getBlob (getOutputsNames model) Map.empty")
      case (Inl e)
      then show ?thesis
        using assms True Some by (simp add: completion_throws wellformed_def)
    next
      case (Inr outs)
      have c: "0 \<le> sint (cb_frameID c)" using assms Some by (auto simp: wellformed_def)
      have o: "getOutputsNames model \<noteq> [] \<longrightarrow> outs \<noteq> Map.empty"
        using copyOutputs_nonempty [OF Inr] by blast
      show ?thesis
        using assms c o unfolding completion_succeeds [OF True Some Inr]
        by (auto simp: wellformed_def emplace_def split: option.splits if_splits)
    qed
  qed
qed

lemma getResult_wellformed:
  assumes "wellformed names s"
  shows "wellformed names (snd (getResult model IsEmpty defaultResult s))"
  using assms
  by (auto simp: getResult_def getInferenceResult_def wellformed_def incr_nonneg
      split: option.splits if_splits)

lemma exec_wellformed:
  "wellformed (getOutputsNames model) s \<Longrightarrow>
   wellformed (getOutputsNames model) (snd (exec model IsEmpty defaultResult ev s))"
  by (cases ev)
    (simp_all add: exec_def split_beta submitData_wellformed completion_wellformed
      getResult_wellformed)

lemma run_wellformed:
  "wellformed (getOutputsNames model) s \<Longrightarrow>
   wellformed (getOutputsNames model) (snd (run model IsEmpty defaultResult evs s))"
  by (induction evs arbitrary: s) (simp_all add: split_beta exec_wellformed)

lemma run_append:
  "run model IsEmpty defaultResult (evs @ evs') s =
     (let (obs, s1) = run model IsEmpty defaultResult evs s;
          (obs', s2) = run model IsEmpty defaultResult evs' s1
      in (obs @ obs', s2))"
  by (induction evs arbitrary: s) (simp_all add: split_beta)

subsection \<open>Evaluation\<close>

lemma newRequestsPool_simps:
  "newRequestsPool 0 = []"
  "newRequestsPool 1 = [Idle]"
  "newRequestsPool (Suc 0) = [Idle]"
  "newRequestsPool 2 = [Idle, Idle]"
  by (simp_all add: newRequestsPool_def numeral_2_eq_2)

lemmas example_defs = exampleModel_def exampleIsEmpty_def exampleDefaultResult_def blobReady_def
  blobThrows_def blobThrowsAgain_def examplePipeline_def newAsyncPipeline_def
  newRequestsPool_simps

lemmas step_defs = exec_def submitData_def getIdleRequest_def completion_def callback_def
  getResult_def getInferenceResult_def setRequestIdle_def emplace_def incrementFrameId_def
  isIdleRequestAvailable_def Let_def

lemma exec_inputFrameId:
  "\<not> isSubmitData ev \<Longrightarrow> inputFrameId (snd (exec model IsEmpty defaultResult ev s)) = inputFrameId s"
  by (cases ev)
    (auto simp: exec_def completion_def callback_def getResult_def getInferenceResult_def Let_def
      split: option.splits sum.splits)

lemma run_inputFrameId:
  "\<forall>ev \<in> set evs. \<not> isSubmitData ev \<Longrightarrow>
   inputFrameId (snd (run model IsEmpty defaultResult evs s)) = inputFrameId s"
  by (induction evs arbitrary: s) (simp_all add: split_beta exec_inputFrameId)

lemma submitData_accepted_fst:
  "isIdleRequestAvailable (requestsPool s) \<Longrightarrow>
   fst (submitData model inputData md s) = inputFrameId s"
  by (erule submitData_accepted [of s model inputData md]) simp

section \<open>The claims\<close>

text \<open>
  C10. A rejected submission changes nothing: when no slot is idle, \<open>submitData\<close> returns
  \<open>-1\<close> and the fields as they were (the input cursor is not incremented, no callback is
  set, no request is started, the pending results are untouched). After any completions
  and retrievals that follow, the next accepted submission is given the sequence number
  the rejected one would have been given, the input cursor at the rejection.
\<close>

theorem submitData_rejected_state_unchanged:
  assumes "\<not> isIdleRequestAvailable (requestsPool s)"
    and "\<forall>ev \<in> set evs. \<not> isSubmitData ev"
    and "isIdleRequestAvailable (requestsPool
           (snd (run model IsEmpty defaultResult evs (snd (submitData model inputData md s)))))"
  shows "submitData model inputData md s = (- 1, s) \<and>
         fst (submitData model inputData' md'
           (snd (run model IsEmpty defaultResult evs (snd (submitData model inputData md s)))))
         = inputFrameId s"
proof -
  have rej: "submitData model inputData md s = (- 1, s)"
    using assms(1) by (rule submitData_rejected)
  define s' where "s' = snd (run model IsEmpty defaultResult evs s)"
  have idle: "isIdleRequestAvailable (requestsPool s')"
    using assms(3) by (simp add: rej s'_def)
  have "inputFrameId s' = inputFrameId s"
    unfolding s'_def using assms(2) by (rule run_inputFrameId)
  moreover have "fst (submitData model inputData' md' s') = inputFrameId s'"
    using idle by (rule submitData_accepted_fst)
  ultimately show ?thesis by (simp add: rej s'_def)
qed

theorem submitData_rejected_state_unchanged_witness:
  "submitData exampleModel 2 20 (snd (submitData exampleModel 1 10 (examplePipeline 1)))
     = (- 1, snd (submitData exampleModel 1 10 (examplePipeline 1))) \<and>
   fst (submitData exampleModel 3 30
     (snd (run exampleModel exampleIsEmpty exampleDefaultResult [Completion 0 blobReady, GetResult]
        (snd (submitData exampleModel 2 20
           (snd (submitData exampleModel 1 10 (examplePipeline 1)))))))) = 1"
proof -
  let ?s = "snd (submitData exampleModel 1 10 (examplePipeline 1))"
  have s: "?s = \<lparr> requestsPool = [Busy],
       completionCallback = [0 \<mapsto> \<lparr>cb_frameID = 0, cb_internalModelData = 1, cb_metaData = 10\<rparr>],
       started = {0},
       completedInferenceResults = Map.empty,
       callbackException = None,
       inputFrameId = 1,
       outputFrameId = 0 \<rparr>"
    by (simp add: example_defs step_defs)
  have h1: "\<not> isIdleRequestAvailable (requestsPool ?s)"
    unfolding s by (simp add: isIdleRequestAvailable_def)
  have h2: "\<forall>ev \<in> set [Completion 0 blobReady, GetResult :: (nat, nat, nat, nat) event].
              \<not> isSubmitData ev"
    by simp
  have h3: "isIdleRequestAvailable (requestsPool
           (snd (run exampleModel exampleIsEmpty exampleDefaultResult [Completion 0 blobReady, GetResult]
              (snd (submitData exampleModel 2 20 ?s)))))"
    unfolding s by (simp add: example_defs step_defs)
  have i1: "inputFrameId ?s = 1" unfolding s by simp
  from submitData_rejected_state_unchanged [OF h1 h2 h3, of 3 30] show ?thesis
    unfolding i1 .
qed

text \<open>
  C9. In every state a run reaches from the constructed pipeline, a call of \<open>submitData\<close>
  that finds an idle slot returns a sequence number that is non-negative, hence different
  from \<open>-1\<close>, and a call that finds none returns \<open>-1\<close>: the rejection value is never the
  sequence number of an accepted submission.
\<close>

theorem submitData_nonneg_or_sentinel:
  assumes "s = snd (run model IsEmpty defaultResult evs (newAsyncPipeline n))"
  shows "if isIdleRequestAvailable (requestsPool s)
         then 0 \<le> sint (fst (submitData model inputData md s)) \<and>
              fst (submitData model inputData md s) \<noteq> - 1
         else fst (submitData model inputData md s) = - 1"
proof -
  have "wellformed (getOutputsNames model) s"
    unfolding assms by (rule run_wellformed) (rule wellformed_new)
  then have nonneg: "0 \<le> sint (inputFrameId s)" by (simp add: wellformed_def)
  show ?thesis
  proof (cases "isIdleRequestAvailable (requestsPool s)")
    case True
    then have "fst (submitData model inputData md s) = inputFrameId s"
      by (rule submitData_accepted_fst)
    moreover have "inputFrameId s \<noteq> - 1" using nonneg by auto
    ultimately show ?thesis using True nonneg by simp
  next
    case False
    then show ?thesis by (simp add: submitData_rejected)
  qed
qed

theorem submitData_nonneg_or_sentinel_witness:
  "fst (submitData exampleModel 1 10 (examplePipeline 1)) = 0 \<and>
   fst (submitData exampleModel 2 20 (snd (submitData exampleModel 1 10 (examplePipeline 1)))) = - 1"
proof -
  let ?new = "newAsyncPipeline 1 :: (nat, nat, nat, nat) AsyncPipeline"
  let ?s0 = "snd (run exampleModel exampleIsEmpty exampleDefaultResult [] ?new)"
  let ?s1 = "snd (run exampleModel exampleIsEmpty exampleDefaultResult [SubmitData 1 10] ?new)"
  have e0: "?s0 = examplePipeline 1" by (simp add: examplePipeline_def)
  have e1: "?s1 = snd (submitData exampleModel 1 10 (examplePipeline 1))"
    by (simp add: examplePipeline_def exec_def split_beta)
  have i0: "isIdleRequestAvailable (requestsPool ?s0)"
    by (simp add: example_defs step_defs)
  have i1: "\<not> isIdleRequestAvailable (requestsPool ?s1)"
    by (simp add: example_defs step_defs)
  have v0: "fst (submitData exampleModel 1 10 ?s0) = 0"
    by (simp add: example_defs step_defs)
  from i1 submitData_nonneg_or_sentinel [OF refl, of exampleModel exampleIsEmpty exampleDefaultResult
      "[SubmitData 1 10] :: (nat, nat, nat, nat) event list" 1 2 20]
  have "fst (submitData exampleModel 2 20 ?s1) = - 1" by (simp only: if_False)
  with v0 show ?thesis unfolding e0 e1 by simp
qed

lemma checkedIncrementFrameId_eq:
  "checkedIncrementFrameId fid =
     (if fid = 0x7FFFFFFFFFFFFFFF then None else Some (incrementFrameId fid))"
  by (simp add: checkedIncrementFrameId_def signedIncrement_def incrementFrameId_def Let_def)

lemma checkedIncrementFrameId_nonneg:
  assumes "0 \<le> sint fid" and "fid \<noteq> 0x7FFFFFFFFFFFFFFF"
  shows "checkedIncrementFrameId fid = Some (fid + 1) \<and> sint (fid + 1) = sint fid + 1"
  using assms sint_succ [OF assms]
  by (simp add: checkedIncrementFrameId_def signedIncrement_def)

lemma submitData_checked_eq:
  "submitData_checked model inputData md s =
     (if isIdleRequestAvailable (requestsPool s) \<and> inputFrameId s = 0x7FFFFFFFFFFFFFFF
      then None else Some (submitData model inputData md s))"
proof (cases "isIdleRequestAvailable (requestsPool s)")
  case False
  then show ?thesis
    by (simp add: submitData_checked_def submitData_def getIdleRequest_none)
next
  case True
  then obtain request where
    "getIdleRequest (requestsPool s) = (Some request, (requestsPool s)[request := Busy])"
    by (rule getIdleRequest_some)
  then show ?thesis
    using True
    by (simp add: submitData_checked_def submitData_def checkedIncrementFrameId_eq Let_def)
qed

lemma getInferenceResult_checked_eq:
  "getInferenceResult_checked IsEmpty defaultResult s =
     (if \<not> IsEmpty (fst (getInferenceResult IsEmpty defaultResult s)) \<and>
         frameId (fst (getInferenceResult IsEmpty defaultResult s)) = 0x7FFFFFFFFFFFFFFF
      then None else Some (getInferenceResult IsEmpty defaultResult s))"
  by (simp add: getInferenceResult_checked_def getInferenceResult_def checkedIncrementFrameId_eq
      split: option.splits)

lemma getResult_checked_eq:
  "getResult_checked model IsEmpty defaultResult s =
     (if \<not> IsEmpty (fst (getInferenceResult IsEmpty defaultResult s)) \<and>
         frameId (fst (getInferenceResult IsEmpty defaultResult s)) = 0x7FFFFFFFFFFFFFFF
      then None else Some (getResult model IsEmpty defaultResult s))"
  by (simp add: getResult_checked_def getResult_def getInferenceResult_checked_eq split_beta)

text \<open>
  C6. At the largest \<^verbatim>\<open>int64_t\<close> the increment of a cursor is signed overflow, for which
  the language defines no result. An accepted \<open>submitData\<close> with the input cursor there,
  and a \<open>getResult\<close> that retrieves the result of that sequence number, have no defined
  outcome: the source does not establish that the cursor goes to 0, nor that it stays
  non-negative. The reset \<^verbatim>\<open>if (id < 0) id = 0\<close> is written for a wrap to the smallest
  value that the language does not promise. Everywhere else the calls are the functions
  \<open>submitData\<close> and \<open>getResult\<close> (\<open>submitData_checked_eq\<close>,
  \<open>getResult_checked_eq\<close>), and from a non-negative cursor the increment adds one and
  never takes the reset (\<open>checkedIncrementFrameId_nonneg\<close>).
\<close>

theorem cursor_overflow_undefined:
  "checkedIncrementFrameId 0x7FFFFFFFFFFFFFFF = None \<and>
   submitData_checked exampleModel 1 10 maxCursorPipeline = None \<and>
   getInferenceResult_checked exampleIsEmpty exampleDefaultResult maxCursorPipeline = None \<and>
   getResult_checked exampleModel exampleIsEmpty exampleDefaultResult maxCursorPipeline = None"
proof -
  have idle: "isIdleRequestAvailable (requestsPool maxCursorPipeline)"
    by (simp add: maxCursorPipeline_def example_defs isIdleRequestAvailable_def)
  have i: "inputFrameId maxCursorPipeline = 0x7FFFFFFFFFFFFFFF"
    by (simp add: maxCursorPipeline_def)
  have r: "fst (getInferenceResult exampleIsEmpty exampleDefaultResult maxCursorPipeline) =
      \<lparr> frameId = 0x7FFFFFFFFFFFFFFF, metaData = 5, internalModelData = 0,
        outputsData = [''detection_out'' \<mapsto> 7] \<rparr>"
    by (simp add: maxCursorPipeline_def getInferenceResult_def example_defs)
  have e: "\<not> exampleIsEmpty (fst (getInferenceResult exampleIsEmpty exampleDefaultResult
      maxCursorPipeline))"
    unfolding r by (simp add: exampleIsEmpty_def)
  have f: "frameId (fst (getInferenceResult exampleIsEmpty exampleDefaultResult
      maxCursorPipeline)) = 0x7FFFFFFFFFFFFFFF"
    unfolding r by simp
  have "checkedIncrementFrameId 0x7FFFFFFFFFFFFFFF = None"
    by (simp add: checkedIncrementFrameId_eq)
  moreover have "submitData_checked exampleModel 1 10 maxCursorPipeline = None"
    using idle i by (simp add: submitData_checked_eq)
  moreover have "getInferenceResult_checked exampleIsEmpty exampleDefaultResult
      maxCursorPipeline = None"
    using e f by (simp add: getInferenceResult_checked_eq)
  moreover have "getResult_checked exampleModel exampleIsEmpty exampleDefaultResult
      maxCursorPipeline = None"
    using e f by (simp add: getResult_checked_eq)
  ultimately show ?thesis by blast
qed

lemma wellformed_nonempty:
  assumes "wellformed names s" and "names \<noteq> []"
    and "\<forall>r. 0 \<le> sint (frameId r) \<and> outputsData r \<noteq> Map.empty \<longrightarrow> \<not> IsEmpty r"
    and "completedInferenceResults s k = Some r"
  shows "frameId r = k \<and> \<not> IsEmpty r"
  using assms unfolding wellformed_def by blast

text \<open>
  C5. In every state a run reaches: when the pending results hold no entry under the output
  cursor, \<open>getResult\<close> returns the null result and leaves the fields as they were; when
  they hold one, \<open>getResult\<close> removes that entry and no other, advances the output cursor,
  and returns what \<open>postprocess\<close> made of the entry, with the sequence number and the
  metadata of the entry copied into it. \<open>IsEmpty\<close> is a parameter: it is assumed to hold
  of the default-constructed result and of no result that has a non-negative sequence
  number and at least one output, and the model is assumed to name at least one output.
\<close>

theorem getResult_absent_or_present:
  assumes "IsEmpty defaultResult"
    and "\<forall>r. 0 \<le> sint (frameId r) \<and> outputsData r \<noteq> Map.empty \<longrightarrow> \<not> IsEmpty r"
    and "getOutputsNames model \<noteq> []"
    and "s = snd (run model IsEmpty defaultResult evs (newAsyncPipeline n))"
  shows "case completedInferenceResults s (outputFrameId s) of
           None \<Rightarrow> getResult model IsEmpty defaultResult s = (None, s)
         | Some r \<Rightarrow>
             getResult model IsEmpty defaultResult s =
               (Some ((postprocess model r)\<lparr>frameId := outputFrameId s, metaData := metaData r\<rparr>),
                s\<lparr>completedInferenceResults :=
                    (completedInferenceResults s)(outputFrameId s := None),
                  outputFrameId := incrementFrameId (outputFrameId s)\<rparr>)"
proof (cases "completedInferenceResults s (outputFrameId s)")
  case None
  then show ?thesis using assms(1) by (simp add: getResult_absent)
next
  case (Some r)
  have "wellformed (getOutputsNames model) s"
    unfolding assms(4) by (rule run_wellformed) (rule wellformed_new)
  from wellformed_nonempty [OF this assms(3) assms(2) Some]
  have "frameId r = outputFrameId s" and "\<not> IsEmpty r" by simp_all
  then show ?thesis using Some by (simp add: getResult_present)
qed

theorem getResult_absent_or_present_witness:
  "getResult exampleModel exampleIsEmpty exampleDefaultResult
     (snd (run exampleModel exampleIsEmpty exampleDefaultResult
        [SubmitData 1 10, SubmitData 2 20, Completion 1 blobReady] (examplePipeline 2)))
   = (None, snd (run exampleModel exampleIsEmpty exampleDefaultResult
        [SubmitData 1 10, SubmitData 2 20, Completion 1 blobReady] (examplePipeline 2))) \<and>
   fst (getResult exampleModel exampleIsEmpty exampleDefaultResult
     (snd (run exampleModel exampleIsEmpty exampleDefaultResult
        [SubmitData 1 10, SubmitData 2 20, Completion 1 blobReady, Completion 0 blobReady]
        (examplePipeline 2))))
   = Some \<lparr> frameId = 0, metaData = 10 \<rparr>"
proof -
  let ?evs1 = "[SubmitData 1 10, SubmitData 2 20, Completion 1 blobReady]
                 :: (nat, nat, nat, nat) event list"
  let ?evs2 = "[SubmitData 1 10, SubmitData 2 20, Completion 1 blobReady, Completion 0 blobReady]
                 :: (nat, nat, nat, nat) event list"
  let ?s1 = "snd (run exampleModel exampleIsEmpty exampleDefaultResult ?evs1 (examplePipeline 2))"
  let ?s2 = "snd (run exampleModel exampleIsEmpty exampleDefaultResult ?evs2 (examplePipeline 2))"
  have h1: "exampleIsEmpty exampleDefaultResult" by (simp add: example_defs)
  have h2: "\<forall>r. 0 \<le> sint (frameId r) \<and> outputsData r \<noteq> Map.empty \<longrightarrow> \<not> exampleIsEmpty r"
    by (simp add: exampleIsEmpty_def)
  have h3: "getOutputsNames exampleModel \<noteq> []" by (simp add: exampleModel_def)
  have n: "examplePipeline 2 = newAsyncPipeline 2" by (simp add: examplePipeline_def)
  have c1: "completedInferenceResults ?s1 (outputFrameId ?s1) = None"
    by (simp add: example_defs step_defs)
  have c2: "completedInferenceResults ?s2 (outputFrameId ?s2) =
     Some \<lparr> frameId = 0, metaData = 10, internalModelData = 1,
            outputsData = [''detection_out'' \<mapsto> 7] \<rparr>"
    by (simp add: example_defs step_defs)
  have o2: "outputFrameId ?s2 = 0"
    by (simp add: example_defs step_defs)
  have a: "getResult exampleModel exampleIsEmpty exampleDefaultResult ?s1 = (None, ?s1)"
    using getResult_absent_or_present [where IsEmpty = exampleIsEmpty
        and defaultResult = exampleDefaultResult, OF h1 h2 h3, of ?s1 ?evs1 2] c1
    unfolding n by simp
  have b: "fst (getResult exampleModel exampleIsEmpty exampleDefaultResult ?s2) =
     Some \<lparr> frameId = 0, metaData = 10 \<rparr>"
    using getResult_absent_or_present [where IsEmpty = exampleIsEmpty
        and defaultResult = exampleDefaultResult, OF h1 h2 h3, of ?s2 ?evs2 2] c2 o2
    unfolding n by (simp add: exampleModel_def)
  from a b show ?thesis by blast
qed

lemma exec_callbackException:
  "callbackException s = Some e0 \<Longrightarrow>
   callbackException (snd (exec model IsEmpty defaultResult ev s)) = Some e0"
  by (cases ev)
    (auto simp: exec_def submitData_def completion_def callback_def getResult_def
      getInferenceResult_def Let_def split: option.splits sum.splits prod.splits)

lemma run_callbackException:
  "callbackException s = Some e0 \<Longrightarrow>
   callbackException (snd (run model IsEmpty defaultResult evs s)) = Some e0"
  by (induction evs arbitrary: s) (simp_all add: split_beta exec_callbackException)

lemma waitForData_rethrows:
  "callbackException s = Some e \<Longrightarrow> waitForData (s # wakeups) = Some (Inl e)"
  by (simp add: waitForData_def waitPredicate_def)

text \<open>
  C3. The exception slot is assigned once. Once it holds an error, no submission,
  completion or retrieval changes it, whether or not further callbacks throw, and a call of
  \<open>waitForData\<close> rethrows that error. When it is empty, a callback that throws stores its
  error there, and the next call of \<open>waitForData\<close> rethrows it.
\<close>

theorem callbackException_first_error_kept:
  "(callbackException s = Some e0 \<longrightarrow>
      callbackException (snd (run model IsEmpty defaultResult evs s)) = Some e0 \<and>
      waitForData (snd (run model IsEmpty defaultResult evs s) # wakeups) = Some (Inl e0)) \<and>
   (callbackException s = None \<and> request \<in> started s \<and>
    completionCallback s request = Some c \<and>
    copyOutputs getBlob (getOutputsNames model) Map.empty = Inl e \<longrightarrow>
      callbackException (completion model request getBlob s) = Some e \<and>
      waitForData (completion model request getBlob s # wakeups) = Some (Inl e))"
proof (intro conjI impI)
  assume "callbackException s = Some e0"
  then show k: "callbackException (snd (run model IsEmpty defaultResult evs s)) = Some e0"
    by (rule run_callbackException)
  then show "waitForData (snd (run model IsEmpty defaultResult evs s) # wakeups) = Some (Inl e0)"
    by (rule waitForData_rethrows)
next
  assume a: "callbackException s = None \<and> request \<in> started s \<and>
    completionCallback s request = Some c \<and>
    copyOutputs getBlob (getOutputsNames model) Map.empty = Inl e"
  then show k: "callbackException (completion model request getBlob s) = Some e"
    by (simp add: completion_throws)
  then show "waitForData (completion model request getBlob s # wakeups) = Some (Inl e)"
    by (rule waitForData_rethrows)
qed

theorem callbackException_first_error_kept_witness:
  "callbackException (snd (run exampleModel exampleIsEmpty exampleDefaultResult
      [SubmitData 1 10, SubmitData 2 20, Completion 1 blobThrows, Completion 0 blobThrowsAgain,
       GetResult]
      (examplePipeline 2))) = Some 13 \<and>
   waitForData [snd (run exampleModel exampleIsEmpty exampleDefaultResult
      [SubmitData 1 10, SubmitData 2 20, Completion 1 blobThrows, Completion 0 blobThrowsAgain,
       GetResult]
      (examplePipeline 2))] = Some (Inl 13)"
proof -
  let ?s = "snd (run exampleModel exampleIsEmpty exampleDefaultResult
      [SubmitData 1 10, SubmitData 2 20] (examplePipeline 2))"
  let ?evs = "[Completion 0 blobThrowsAgain, GetResult] :: (nat, nat, nat, nat) event list"
  let ?c = "\<lparr>cb_frameID = 1, cb_internalModelData = 3, cb_metaData = 20 :: nat\<rparr>
              :: (nat, nat) captured"
  have s: "?s = \<lparr> requestsPool = [Busy, Busy],
       completionCallback =
         [0 \<mapsto> \<lparr>cb_frameID = 0, cb_internalModelData = 1, cb_metaData = 10\<rparr>,
          1 \<mapsto> ?c],
       started = {1, 0},
       completedInferenceResults = Map.empty,
       callbackException = None,
       inputFrameId = 2,
       outputFrameId = 0 \<rparr>"
    by (simp add: example_defs step_defs)
  have h: "callbackException ?s = None \<and> 1 \<in> started ?s \<and>
    completionCallback ?s 1 = Some ?c \<and>
    copyOutputs blobThrows (getOutputsNames exampleModel) Map.empty = Inl 13"
    unfolding s by (simp add: example_defs)
  from callbackException_first_error_kept [of ?s _ exampleModel exampleIsEmpty
      exampleDefaultResult "[]" "[]" 1 ?c blobThrows 13] h
  have first: "callbackException (completion exampleModel 1 blobThrows ?s) = Some 13"
    by blast
  have r: "snd (run exampleModel exampleIsEmpty exampleDefaultResult
      [SubmitData 1 10, SubmitData 2 20, Completion 1 blobThrows, Completion 0 blobThrowsAgain,
       GetResult] (examplePipeline 2))
     = snd (run exampleModel exampleIsEmpty exampleDefaultResult ?evs
         (completion exampleModel 1 blobThrows ?s))"
    by (simp add: split_beta exec_def)
  from callbackException_first_error_kept [of "completion exampleModel 1 blobThrows ?s" 13
      exampleModel exampleIsEmpty exampleDefaultResult ?evs "[]"] first
  show ?thesis unfolding r by blast
qed



lemma condVar_wait_None: "condVar_wait pred ss = None \<longleftrightarrow> (\<forall>s \<in> set ss. \<not> pred s)"
  by (induction ss) auto

lemma condVar_wait_Some:
  "condVar_wait pred ss = Some s \<Longrightarrow>
   \<exists>before after. ss = before @ s # after \<and> (\<forall>t \<in> set before. \<not> pred t) \<and> pred s"
proof (induction ss)
  case Nil
  then show ?case by simp
next
  case (Cons a ss)
  show ?case
  proof (cases "pred a")
    case True
    with Cons.prems have "a = s" by simp
    with True have "a # ss = [] @ s # ss \<and> (\<forall>t \<in> set []. \<not> pred t) \<and> pred s" by simp
    then show ?thesis by blast
  next
    case False
    with Cons obtain before after where
      "ss = before @ s # after" "\<forall>t \<in> set before. \<not> pred t" "pred s" by auto
    with False have "a # ss = (a # before) @ s # after \<and> (\<forall>t \<in> set (a # before). \<not> pred t) \<and> pred s"
      by simp
    then show ?thesis by blast
  qed
qed

text \<open>
  C4. Over the states the caller sees (at the call and at each wake-up), \<open>waitForData\<close>
  stays blocked exactly when in every one of them the exception slot is empty, no slot is
  idle and no result is pending under the output cursor. When it returns, it does so at the
  first state where one of the three holds, and it rethrows when the exception slot of that
  state is non-empty.
\<close>

theorem waitForData_blocks_until:
  "(waitForData observed = None \<longleftrightarrow>
      (\<forall>s \<in> set observed.
         callbackException s = None \<and> \<not> isIdleRequestAvailable (requestsPool s) \<and>
         completedInferenceResults s (outputFrameId s) = None)) \<and>
   (\<forall>res. waitForData observed = Some res \<longrightarrow>
      (\<exists>before s after. observed = before @ s # after \<and>
         (\<forall>t \<in> set before.
            callbackException t = None \<and> \<not> isIdleRequestAvailable (requestsPool t) \<and>
            completedInferenceResults t (outputFrameId t) = None) \<and>
         (callbackException s \<noteq> None \<or> isIdleRequestAvailable (requestsPool s) \<or>
          completedInferenceResults s (outputFrameId s) \<noteq> None) \<and>
         res = (case callbackException s of Some e \<Rightarrow> Inl e | None \<Rightarrow> Inr ())))"
proof (intro conjI allI impI)
  have "waitForData observed = None \<longleftrightarrow> condVar_wait waitPredicate observed = None"
    by (simp add: waitForData_def split: option.splits)
  then show "waitForData observed = None \<longleftrightarrow>
      (\<forall>s \<in> set observed.
         callbackException s = None \<and> \<not> isIdleRequestAvailable (requestsPool s) \<and>
         completedInferenceResults s (outputFrameId s) = None)"
    by (simp add: condVar_wait_None waitPredicate_def)
next
  fix res
  assume r: "waitForData observed = Some res"
  then obtain s where s: "condVar_wait waitPredicate observed = Some s"
    and res: "res = (case callbackException s of Some e \<Rightarrow> Inl e | None \<Rightarrow> Inr ())"
    by (auto simp: waitForData_def split: option.splits)
  from condVar_wait_Some [OF s] obtain before after where
    "observed = before @ s # after" "\<forall>t \<in> set before. \<not> waitPredicate t" "waitPredicate s"
    by blast
  with res show "\<exists>before s after. observed = before @ s # after \<and>
         (\<forall>t \<in> set before.
            callbackException t = None \<and> \<not> isIdleRequestAvailable (requestsPool t) \<and>
            completedInferenceResults t (outputFrameId t) = None) \<and>
         (callbackException s \<noteq> None \<or> isIdleRequestAvailable (requestsPool s) \<or>
          completedInferenceResults s (outputFrameId s) \<noteq> None) \<and>
         res = (case callbackException s of Some e \<Rightarrow> Inl e | None \<Rightarrow> Inr ())"
    unfolding waitPredicate_def by blast
qed

theorem waitForData_blocks_until_witness:
  "waitForData [snd (submitData exampleModel 1 10 (examplePipeline 1))] = None \<and>
   waitForData [snd (submitData exampleModel 1 10 (examplePipeline 1)),
                completion exampleModel 0 blobReady
                  (snd (submitData exampleModel 1 10 (examplePipeline 1)))] = Some (Inr ())"
proof -
  let ?s = "snd (submitData exampleModel 1 10 (examplePipeline 1))"
  have s: "?s = \<lparr> requestsPool = [Busy],
       completionCallback = [0 \<mapsto> \<lparr>cb_frameID = 0, cb_internalModelData = 1, cb_metaData = 10\<rparr>],
       started = {0},
       completedInferenceResults = Map.empty,
       callbackException = None,
       inputFrameId = 1,
       outputFrameId = 0 \<rparr>"
    by (simp add: example_defs step_defs)
  have blocked: "\<forall>t \<in> set [?s].
         callbackException t = None \<and> \<not> isIdleRequestAvailable (requestsPool t) \<and>
         completedInferenceResults t (outputFrameId t) = None"
    unfolding s by (simp add: isIdleRequestAvailable_def)
  have a: "waitForData [?s] = None"
    using waitForData_blocks_until [of "[?s]"] blocked by blast
  have "waitForData [?s, completion exampleModel 0 blobReady ?s] \<noteq> None"
    using waitForData_blocks_until [of "[?s, completion exampleModel 0 blobReady ?s]"]
    unfolding s by (simp add: example_defs step_defs)
  then obtain res where res: "waitForData [?s, completion exampleModel 0 blobReady ?s] = Some res"
    by blast
  have "callbackException ?s = None" "callbackException (completion exampleModel 0 blobReady ?s) = None"
    unfolding s by (simp_all add: example_defs step_defs)
  then have "res = Inr ()"
    using res by (simp add: waitForData_def split: option.splits if_splits)
  with a res show ?thesis by simp
qed

subsection \<open>Sequence numbers count the accepted submissions\<close>

lemma counted_new: "counted [] 0 (newAsyncPipeline n)"
  by (simp add: counted_def newAsyncPipeline_def)

lemma of_nat_not_sentinel: "j < 2 ^ 63 \<Longrightarrow> (word_of_nat j :: int64_t) \<noteq> - 1"
  using sint_of_nat64 [of j] by (metis sint_n1 of_nat_0_le_iff not_one_le_zero neg_0_le_iff_le)

lemma submitData_counted:
  assumes "counted mds k s" and "Suc (length mds) < 2 ^ 63"
  shows "if isIdleRequestAvailable (requestsPool s)
         then fst (submitData model inputData md s) = word_of_nat (length mds) \<and>
              fst (submitData model inputData md s) \<noteq> - 1 \<and>
              counted (mds @ [md]) k (snd (submitData model inputData md s))
         else submitData model inputData md s = (- 1, s)"
proof (cases "isIdleRequestAvailable (requestsPool s)")
  case False
  then show ?thesis by (simp add: submitData_rejected)
next
  case True
  then obtain request where sub:
    "submitData model inputData md s =
      (inputFrameId s,
       s\<lparr>requestsPool := (requestsPool s)[request := Busy],
         completionCallback := (completionCallback s)(request \<mapsto>
            \<lparr>cb_frameID = inputFrameId s,
             cb_internalModelData = preprocess model inputData request,
             cb_metaData = md\<rparr>),
         inputFrameId := incrementFrameId (inputFrameId s),
         started := insert request (started s)\<rparr>)"
    by (rule submitData_accepted)
  have i: "inputFrameId s = word_of_nat (length mds)" using assms(1) by (simp add: counted_def)
  have n: "(word_of_nat (length mds) :: int64_t) \<noteq> - 1"
    using assms(2) by (intro of_nat_not_sentinel) simp
  have inc: "incrementFrameId (word_of_nat (length mds)) = word_of_nat (Suc (length mds))"
    using assms(2) by (rule incr_of_nat)
  have entries: "\<exists>j < length (mds @ [md]). key = word_of_nat j \<and> frameId r = word_of_nat j \<and>
      metaData r = (mds @ [md]) ! j"
    if "completedInferenceResults s key = Some r" for key r
  proof -
    from that assms(1) obtain j where "j < length mds" "key = word_of_nat j"
      "frameId r = word_of_nat j" "metaData r = mds ! j"
      unfolding counted_def by blast
    then have "j < length (mds @ [md]) \<and> key = word_of_nat j \<and> frameId r = word_of_nat j \<and>
      metaData r = (mds @ [md]) ! j" by (simp add: nth_append)
    then show ?thesis by blast
  qed
  have callbacks: "\<exists>j < length (mds @ [md]). cb_frameID c = word_of_nat j \<and>
      cb_metaData c = (mds @ [md]) ! j"
    if "((completionCallback s)(request \<mapsto>
            \<lparr>cb_frameID = inputFrameId s,
             cb_internalModelData = preprocess model inputData request,
             cb_metaData = md\<rparr>)) request' = Some c" for request' c
  proof (cases "request' = request")
    case True
    with that i have "length mds < length (mds @ [md]) \<and> cb_frameID c = word_of_nat (length mds) \<and>
      cb_metaData c = (mds @ [md]) ! length mds" by auto
    then show ?thesis by blast
  next
    case False
    with that have "completionCallback s request' = Some c" by simp
    with assms(1) obtain j where "j < length mds" "cb_frameID c = word_of_nat j"
      "cb_metaData c = mds ! j"
      unfolding counted_def by blast
    then have "j < length (mds @ [md]) \<and> cb_frameID c = word_of_nat j \<and>
      cb_metaData c = (mds @ [md]) ! j" by (simp add: nth_append)
    then show ?thesis by blast
  qed
  have "counted (mds @ [md]) k (snd (submitData model inputData md s))"
    unfolding counted_def sub
    using assms entries callbacks inc by (simp add: counted_def i)
  with True sub i n show ?thesis by simp
qed

lemma completion_counted:
  assumes "counted mds k s"
  shows "counted mds k (completion model request getBlob s)"
proof (cases "request \<in> started s")
  case False
  then show ?thesis using assms by (simp add: completion_idle)
next
  case True
  show ?thesis
  proof (cases "completionCallback s request")
    case None
    then show ?thesis using assms by (simp add: completion_idle)
  next
    case (Some c)
    show ?thesis
    proof (cases "copyOutputs getBlob (getOutputsNames model) Map.empty")
      case (Inl e)
      show ?thesis
        using assms unfolding completion_throws [OF True Some Inl] counted_def by simp
    next
      case (Inr outs)
      from assms Some obtain j where j: "j < length mds" "cb_frameID c = word_of_nat j"
        "cb_metaData c = mds ! j"
        unfolding counted_def by blast
      have "\<exists>j < length mds. key = word_of_nat j \<and> frameId r = word_of_nat j \<and>
          metaData r = mds ! j"
        if "emplace (completedInferenceResults s) (cb_frameID c)
              \<lparr> frameId = cb_frameID c, metaData = cb_metaData c,
                internalModelData = cb_internalModelData c, outputsData = outs \<rparr> key = Some r"
        for key r
      proof (cases "completedInferenceResults s key")
        case None
        with that have "key = cb_frameID c \<and> frameId r = cb_frameID c \<and> metaData r = cb_metaData c"
          by (auto simp: emplace_def split: option.splits if_splits)
        with j show ?thesis by auto
      next
        case (Some r')
        with that have "r = r'"
          by (auto simp: emplace_def split: option.splits if_splits)
        with Some assms show ?thesis unfolding counted_def by blast
      qed
      then show ?thesis
        using assms unfolding completion_succeeds [OF True Some Inr] counted_def by simp
    qed
  qed
qed

lemma getResult_counted:
  assumes "counted mds k s" and "IsEmpty defaultResult"
  shows "case fst (getResult model IsEmpty defaultResult s) of
           None \<Rightarrow> counted mds k (snd (getResult model IsEmpty defaultResult s))
         | Some res \<Rightarrow>
             k < length mds \<and> frameId res = word_of_nat k \<and> metaData res = mds ! k \<and>
             counted mds (Suc k) (snd (getResult model IsEmpty defaultResult s))"
proof (cases "completedInferenceResults s (outputFrameId s)")
  case None
  then show ?thesis using assms by (simp add: getResult_absent)
next
  case (Some r)
  from assms(1) Some obtain j where j: "j < length mds" "outputFrameId s = word_of_nat j"
    "frameId r = word_of_nat j" "metaData r = mds ! j"
    unfolding counted_def by blast
  have bound: "length mds < 2 ^ 63" and k: "k \<le> length mds"
    and o: "outputFrameId s = word_of_nat k"
    using assms(1) by (simp_all add: counted_def)
  have "j = k"
    using j(1,2) o k bound by (intro of_nat_inj64) auto
  have others: "\<exists>j < length mds. key = word_of_nat j \<and> frameId r' = word_of_nat j \<and>
        metaData r' = mds ! j"
    if "((completedInferenceResults s)(outputFrameId s := None)) key = Some r'" for key r'
    using that assms(1) unfolding counted_def by (auto split: if_splits)
  show ?thesis
  proof (cases "IsEmpty r")
    case True
    show ?thesis
      using assms(1) others
      unfolding getResult_present_empty [of s r IsEmpty, OF Some True] counted_def by simp
  next
    case False
    have "Suc k < 2 ^ 63" using j(1) bound \<open>j = k\<close> by simp
    then have "incrementFrameId (word_of_nat k) = word_of_nat (Suc k)" by (rule incr_of_nat)
    then show ?thesis
      using assms(1) others j \<open>j = k\<close>
      unfolding getResult_present [of s r IsEmpty, OF Some False] counted_def by simp
  qed
qed

lemma accepted_append: "accepted (obs @ obs') = accepted obs @ accepted obs'"
  by (induction obs rule: accepted.induct) simp_all

lemma retrieved_append: "retrieved (obs @ obs') = retrieved obs @ retrieved obs'"
  by (induction obs rule: retrieved.induct) simp_all

lemma accepted_length: "length (accepted obs) \<le> length obs"
  by (induction obs rule: accepted.induct) auto

lemma run_length: "length (fst (run model IsEmpty defaultResult evs s)) = length evs"
  by (induction evs arbitrary: s) (simp_all add: split_beta)

lemma run_snoc:
  "run model IsEmpty defaultResult (evs @ [ev]) s =
     (fst (run model IsEmpty defaultResult evs s) @
        [fst (exec model IsEmpty defaultResult ev (snd (run model IsEmpty defaultResult evs s)))],
      snd (exec model IsEmpty defaultResult ev (snd (run model IsEmpty defaultResult evs s))))"
  by (simp add: run_append split_beta)

lemma history_ok_new: "history_ok [] (newAsyncPipeline n)"
  by (simp add: history_ok_def counted_new)

lemma exec_history:
  assumes h: "history_ok obs s" and e: "IsEmpty defaultResult"
    and b: "Suc (length (accepted obs)) < 2 ^ 63"
  shows "history_ok (obs @ [fst (exec model IsEmpty defaultResult ev s)])
           (snd (exec model IsEmpty defaultResult ev s))"
proof -
  let ?mds = "map snd (accepted obs)"
  let ?k = "length (retrieved obs)"
  have c: "counted ?mds ?k s"
    and a: "map fst (accepted obs) = map word_of_nat [0..<length (accepted obs)]"
    and r: "map (\<lambda>r. (frameId r, metaData r)) (retrieved obs) =
       map (\<lambda>j. (word_of_nat j, ?mds ! j)) [0..<?k]"
    using h by (simp_all add: history_ok_def)
  have k: "?k \<le> length ?mds" using c by (simp add: counted_def)
  show ?thesis
  proof (cases ev)
    case (SubmitData inputData md)
    have b': "Suc (length ?mds) < 2 ^ 63" using b by simp
    show ?thesis
    proof (cases "isIdleRequestAvailable (requestsPool s)")
      case False
      then show ?thesis
        using h by (simp add: SubmitData exec_def submitData_rejected accepted_append
            retrieved_append history_ok_def)
    next
      case True
      from submitData_counted [OF c b', of model inputData md]
      have "fst (submitData model inputData md s) = word_of_nat (length ?mds) \<and>
        fst (submitData model inputData md s) \<noteq> - 1 \<and>
        counted (?mds @ [md]) ?k (snd (submitData model inputData md s))"
        unfolding if_P [OF True] .
      then have f: "fst (submitData model inputData md s) = word_of_nat (length ?mds)"
        and n: "fst (submitData model inputData md s) \<noteq> - 1"
        and c': "counted (?mds @ [md]) ?k (snd (submitData model inputData md s))"
        by blast+
      have r': "map (\<lambda>j. (word_of_nat j :: int64_t, (?mds @ [md]) ! j)) [0..<?k] =
                map (\<lambda>j. (word_of_nat j, ?mds ! j)) [0..<?k]"
        using k by (intro map_cong) (auto simp: nth_append)
      show ?thesis
        using f n c' a r r'
        by (simp add: SubmitData exec_def split_beta accepted_append retrieved_append
            history_ok_def)
    qed
  next
    case (Completion request getBlob)
    then show ?thesis
      using h completion_counted [OF c, of model request getBlob]
      by (simp add: exec_def accepted_append retrieved_append history_ok_def)
  next
    case GetResult
    show ?thesis
    proof (cases "fst (getResult model IsEmpty defaultResult s)")
      case None
      with getResult_counted [where IsEmpty = IsEmpty and defaultResult = defaultResult,
          OF c e, of model] h show ?thesis
        by (simp add: GetResult exec_def split_beta accepted_append retrieved_append
            history_ok_def)
    next
      case (Some res)
      with getResult_counted [where IsEmpty = IsEmpty and defaultResult = defaultResult,
          OF c e, of model]
      have "?k < length ?mds" "frameId res = word_of_nat ?k" "metaData res = ?mds ! ?k"
        "counted ?mds (Suc ?k) (snd (getResult model IsEmpty defaultResult s))"
        by simp_all
      then show ?thesis
        using Some a r
        by (simp add: GetResult exec_def split_beta accepted_append retrieved_append
            history_ok_def)
    qed
  qed
qed

lemma run_history:
  assumes "IsEmpty defaultResult" and "length evs < 2 ^ 63"
  shows "history_ok (fst (run model IsEmpty defaultResult evs (newAsyncPipeline n)))
           (snd (run model IsEmpty defaultResult evs (newAsyncPipeline n)))"
  using assms(2)
proof (induction evs rule: rev_induct)
  case Nil
  then show ?case by (simp add: history_ok_new)
next
  case (snoc ev evs)
  let ?obs = "fst (run model IsEmpty defaultResult evs (newAsyncPipeline n))"
  have "length (accepted ?obs) \<le> length evs"
    using accepted_length [of ?obs] by (simp add: run_length)
  with snoc.prems have "Suc (length (accepted ?obs)) < 2 ^ 63" by simp
  moreover have "history_ok ?obs (snd (run model IsEmpty defaultResult evs (newAsyncPipeline n)))"
    using snoc by simp
  ultimately show ?case
    unfolding run_snoc fst_conv snd_conv using assms(1) by (intro exec_history)
qed

subsection \<open>Every accepted submission is pending or running\<close>

lemma pending_new: "pending 0 0 (newAsyncPipeline n)"
  by (simp add: pending_def newAsyncPipeline_def)

lemma submitData_pending:
  assumes "pending k N s" and "inputFrameId s = word_of_nat N"
    and "isIdleRequestAvailable (requestsPool s)"
  shows "pending k (Suc N) (snd (submitData model inputData md s))"
proof -
  from assms(3) obtain request where idle: "requestsPool s ! request = Idle"
    and len: "request < length (requestsPool s)"
    and sub: "submitData model inputData md s =
      (inputFrameId s,
       s\<lparr>requestsPool := (requestsPool s)[request := Busy],
         completionCallback := (completionCallback s)(request \<mapsto>
            \<lparr>cb_frameID = inputFrameId s,
             cb_internalModelData = preprocess model inputData request,
             cb_metaData = md\<rparr>),
         inputFrameId := incrementFrameId (inputFrameId s),
         started := insert request (started s)\<rparr>)"
    by (rule submitData_accepted)
  have notstarted: "request \<notin> started s"
    using assms(1) idle unfolding pending_def by auto
  have slots: "request' < length (requestsPool s) \<and> (requestsPool s)[request := Busy] ! request' = Busy"
    if "request' \<in> insert request (started s)" for request'
    using that assms(1) len unfolding pending_def by (cases "request' = request") auto
  have ids: "completedInferenceResults s (word_of_nat j) \<noteq> None \<or>
        (\<exists>request' \<in> insert request (started s). \<exists>c.
           ((completionCallback s)(request \<mapsto>
            \<lparr>cb_frameID = inputFrameId s,
             cb_internalModelData = preprocess model inputData request,
             cb_metaData = md\<rparr>)) request' = Some c \<and> cb_frameID c = word_of_nat j)"
    if "k \<le> j" "j < Suc N" for j
  proof (cases "j = N")
    case True
    then show ?thesis using assms(2) by auto
  next
    case False
    with that have "j < N" by simp
    with that(1) assms(1) consider "completedInferenceResults s (word_of_nat j) \<noteq> None"
      | request' c where "request' \<in> started s" "completionCallback s request' = Some c"
          "cb_frameID c = word_of_nat j"
      unfolding pending_def by blast
    then show ?thesis
    proof cases
      case 1
      then show ?thesis by simp
    next
      case 2
      with notstarted have "request' \<noteq> request" by auto
      with 2 show ?thesis by auto
    qed
  qed
  show ?thesis unfolding sub pending_def using slots ids by simp
qed

lemma completion_pending:
  assumes "pending k N s"
    and "\<forall>e. copyOutputs getBlob (getOutputsNames model) Map.empty \<noteq> Inl e"
  shows "pending k N (completion model request getBlob s)"
proof (cases "request \<in> started s")
  case False
  then show ?thesis using assms by (simp add: completion_idle)
next
  case True
  show ?thesis
  proof (cases "completionCallback s request")
    case None
    then show ?thesis using assms by (simp add: completion_idle)
  next
    case (Some c)
    from assms(2) obtain outs where
      Inr: "copyOutputs getBlob (getOutputsNames model) Map.empty = Inr outs"
      by (cases "copyOutputs getBlob (getOutputsNames model) Map.empty") auto
    let ?result = "\<lparr> frameId = cb_frameID c, metaData = cb_metaData c,
           internalModelData = cb_internalModelData c, outputsData = outs \<rparr>"
    have kept: "emplace (completedInferenceResults s) (cb_frameID c) ?result key \<noteq> None"
      if "completedInferenceResults s key \<noteq> None \<or> key = cb_frameID c" for key
      using that by (auto simp: emplace_def split: option.splits)
    have ids: "emplace (completedInferenceResults s) (cb_frameID c) ?result (word_of_nat j) \<noteq> None \<or>
        (\<exists>request' \<in> started s - {request}. \<exists>c'.
           completionCallback s request' = Some c' \<and> cb_frameID c' = word_of_nat j)"
      if "k \<le> j" "j < N" for j
    proof -
      from that assms(1) consider "completedInferenceResults s (word_of_nat j) \<noteq> None"
        | request' c' where "request' \<in> started s" "completionCallback s request' = Some c'"
            "cb_frameID c' = word_of_nat j"
        unfolding pending_def by blast
      then show ?thesis
      proof cases
        case 1
        then show ?thesis using kept by blast
      next
        case 2
        show ?thesis
        proof (cases "request' = request")
          case True
          with 2 Some have "word_of_nat j = cb_frameID c" by simp
          then show ?thesis using kept by blast
        next
          case False
          with 2 show ?thesis by blast
        qed
      qed
    qed
    have slots: "request' < length (requestsPool s) \<and>
        setRequestIdle (requestsPool s) request ! request' = Busy"
      if "request' \<in> started s - {request}" for request'
      using that assms(1) unfolding pending_def setRequestIdle_def by auto
    show ?thesis
      unfolding completion_succeeds [OF True Some Inr] pending_def
      using ids slots by (simp add: setRequestIdle_def)
  qed
qed

lemma getResult_pending:
  assumes "pending k N s" and "counted mds k s" and "N = length mds"
    and "IsEmpty defaultResult"
    and "\<forall>key r. completedInferenceResults s key = Some r \<longrightarrow> \<not> IsEmpty r"
  shows "case fst (getResult model IsEmpty defaultResult s) of
           None \<Rightarrow> snd (getResult model IsEmpty defaultResult s) = s \<and>
                   completedInferenceResults s (word_of_nat k) = None
         | Some res \<Rightarrow> pending (Suc k) N (snd (getResult model IsEmpty defaultResult s))"
proof (cases "completedInferenceResults s (outputFrameId s)")
  case None
  moreover have "outputFrameId s = word_of_nat k" using assms(2) by (simp add: counted_def)
  ultimately show ?thesis using assms(4) by (simp add: getResult_absent)
next
  case (Some r)
  then have ne: "\<not> IsEmpty r" using assms(5) by blast
  have o: "outputFrameId s = word_of_nat k" and bound: "length mds < 2 ^ 63"
    using assms(2) by (simp_all add: counted_def)
  have ids: "((completedInferenceResults s)(word_of_nat k := None)) (word_of_nat j) \<noteq> None \<or>
        (\<exists>request \<in> started s. \<exists>c.
           completionCallback s request = Some c \<and> cb_frameID c = word_of_nat j)"
    if "Suc k \<le> j" "j < N" for j
  proof -
    have "(word_of_nat j :: int64_t) \<noteq> word_of_nat k"
      using that bound assms(3) of_nat_inj64 [of j k] by auto
    moreover have "completedInferenceResults s (word_of_nat j) \<noteq> None \<or>
        (\<exists>request \<in> started s. \<exists>c.
           completionCallback s request = Some c \<and> cb_frameID c = word_of_nat j)"
      using that assms(1) unfolding pending_def by auto
    ultimately show ?thesis by auto
  qed
  show ?thesis
    unfolding getResult_present [of s r IsEmpty, OF Some ne] pending_def
    using ids assms(1) by (simp add: o pending_def)
qed

lemma exec_pending:
  assumes h: "history_ok obs s"
    and w: "wellformed (getOutputsNames model) s"
    and p: "pending (length (retrieved obs)) (length (accepted obs)) s"
    and e: "IsEmpty defaultResult"
    and ne: "\<forall>r. 0 \<le> sint (frameId r) \<and> outputsData r \<noteq> Map.empty \<longrightarrow> \<not> IsEmpty r"
    and names: "getOutputsNames model \<noteq> []"
    and b: "Suc (length (accepted obs)) < 2 ^ 63"
    and nofail: "\<And>request getBlob. ev = Completion request getBlob \<Longrightarrow>
        \<forall>e. copyOutputs getBlob (getOutputsNames model) Map.empty \<noteq> Inl e"
  shows "pending (length (retrieved (obs @ [fst (exec model IsEmpty defaultResult ev s)])))
           (length (accepted (obs @ [fst (exec model IsEmpty defaultResult ev s)])))
           (snd (exec model IsEmpty defaultResult ev s))"
proof -
  let ?mds = "map snd (accepted obs)"
  let ?k = "length (retrieved obs)"
  have c: "counted ?mds ?k s" using h by (simp add: history_ok_def)
  show ?thesis
  proof (cases ev)
    case (SubmitData inputData md)
    have b': "Suc (length ?mds) < 2 ^ 63" using b by simp
    show ?thesis
    proof (cases "isIdleRequestAvailable (requestsPool s)")
      case False
      then show ?thesis
        using p by (simp add: SubmitData exec_def submitData_rejected accepted_append
            retrieved_append)
    next
      case True
      from submitData_counted [OF c b', of model inputData md]
      have "fst (submitData model inputData md s) = word_of_nat (length ?mds) \<and>
        fst (submitData model inputData md s) \<noteq> - 1 \<and>
        counted (?mds @ [md]) ?k (snd (submitData model inputData md s))"
        unfolding if_P [OF True] .
      then have n: "fst (submitData model inputData md s) \<noteq> - 1" by blast
      have i: "inputFrameId s = word_of_nat (length (accepted obs))"
        using c by (simp add: counted_def)
      from submitData_pending [OF p i True, of model inputData md] n show ?thesis
        by (simp add: SubmitData exec_def split_beta accepted_append retrieved_append)
    qed
  next
    case (Completion request getBlob)
    with nofail have "\<forall>e. copyOutputs getBlob (getOutputsNames model) Map.empty \<noteq> Inl e"
      by blast
    from completion_pending [OF p this, of request] show ?thesis
      by (simp add: Completion exec_def accepted_append retrieved_append)
  next
    case GetResult
    have entries: "\<forall>key r. completedInferenceResults s key = Some r \<longrightarrow> \<not> IsEmpty r"
      using wellformed_nonempty [OF w names ne] by blast
    from getResult_pending [where IsEmpty = IsEmpty and defaultResult = defaultResult,
        OF p c _ e entries, of model]
    show ?thesis
      using p
      by (cases "fst (getResult model IsEmpty defaultResult s)")
        (simp_all add: GetResult exec_def split_beta accepted_append retrieved_append)
  qed
qed

lemma run_pending:
  assumes e: "IsEmpty defaultResult"
    and ne: "\<forall>r. 0 \<le> sint (frameId r) \<and> outputsData r \<noteq> Map.empty \<longrightarrow> \<not> IsEmpty r"
    and names: "getOutputsNames model \<noteq> []"
  shows "length evs < 2 ^ 63 \<Longrightarrow>
    \<forall>request getBlob. Completion request getBlob \<in> set evs \<longrightarrow>
       (\<forall>e. copyOutputs getBlob (getOutputsNames model) Map.empty \<noteq> Inl e) \<Longrightarrow>
    pending (length (retrieved (fst (run model IsEmpty defaultResult evs (newAsyncPipeline n)))))
      (length (accepted (fst (run model IsEmpty defaultResult evs (newAsyncPipeline n)))))
      (snd (run model IsEmpty defaultResult evs (newAsyncPipeline n)))"
proof (induction evs rule: rev_induct)
  case Nil
  then show ?case by (simp add: pending_new)
next
  case (snoc ev evs)
  let ?obs = "fst (run model IsEmpty defaultResult evs (newAsyncPipeline n))"
  let ?s = "snd (run model IsEmpty defaultResult evs (newAsyncPipeline n))"
  have len: "length evs < 2 ^ 63" using snoc.prems(1) by simp
  have "length (accepted ?obs) \<le> length evs"
    using accepted_length [of ?obs] by (simp add: run_length)
  with snoc.prems(1) have b: "Suc (length (accepted ?obs)) < 2 ^ 63" by simp
  have h: "history_ok ?obs ?s" using e len by (rule run_history)
  have w: "wellformed (getOutputsNames model) ?s"
    by (rule run_wellformed) (rule wellformed_new)
  have p: "pending (length (retrieved ?obs)) (length (accepted ?obs)) ?s"
    using snoc.IH [OF len] snoc.prems(2) by simp
  have nofail: "\<forall>e. copyOutputs getBlob (getOutputsNames model) Map.empty \<noteq> Inl e"
    if "ev = Completion request getBlob" for request getBlob
    using that snoc.prems(2) by simp
  show ?case
    unfolding run_snoc fst_conv snd_conv
    using h w p e ne names b nofail by (rule exec_pending)
qed

lemma drain:
  assumes e: "IsEmpty defaultResult"
  shows "counted mds k s \<Longrightarrow>
    \<forall>j. k \<le> j \<and> j < length mds \<longrightarrow>
       (\<exists>r. completedInferenceResults s (word_of_nat j) = Some r \<and> \<not> IsEmpty r) \<Longrightarrow>
    k + m \<le> length mds \<Longrightarrow>
    map (\<lambda>r. (frameId r, metaData r))
      (retrieved (fst (run model IsEmpty defaultResult (replicate m GetResult) s))) =
    map (\<lambda>j. (word_of_nat j, mds ! j)) [k..<k + m]"
proof (induction m arbitrary: k s)
  case 0
  then show ?case by simp
next
  case (Suc m)
  let ?g = "getResult model IsEmpty defaultResult s"
  have o: "outputFrameId s = word_of_nat k" and bound: "length mds < 2 ^ 63"
    using Suc.prems(1) by (simp_all add: counted_def)
  have k: "k < length mds" using Suc.prems(3) by simp
  with Suc.prems(2) obtain r where r: "completedInferenceResults s (outputFrameId s) = Some r"
    and ne: "\<not> IsEmpty r"
    unfolding o by blast
  have g: "?g =
     (Some ((postprocess model r)\<lparr>frameId := frameId r, metaData := metaData r\<rparr>),
      s\<lparr>completedInferenceResults := (completedInferenceResults s)(outputFrameId s := None),
        outputFrameId := incrementFrameId (frameId r)\<rparr>)"
    using r ne by (rule getResult_present)
  then obtain res where res: "fst ?g = Some res" by simp
  with getResult_counted [where IsEmpty = IsEmpty and defaultResult = defaultResult,
      OF Suc.prems(1) e, of model]
  have f: "frameId res = word_of_nat k" "metaData res = mds ! k"
    and c': "counted mds (Suc k) (snd ?g)"
    by simp_all
  have rest: "\<forall>j. Suc k \<le> j \<and> j < length mds \<longrightarrow>
       (\<exists>r. completedInferenceResults (snd ?g) (word_of_nat j) = Some r \<and> \<not> IsEmpty r)"
  proof (intro allI impI)
    fix j
    assume j: "Suc k \<le> j \<and> j < length mds"
    then have "(word_of_nat j :: int64_t) \<noteq> word_of_nat k"
      using bound of_nat_inj64 [of j k] by auto
    moreover from j Suc.prems(2) have
      "\<exists>r. completedInferenceResults s (word_of_nat j) = Some r \<and> \<not> IsEmpty r"
      by simp
    ultimately show "\<exists>r. completedInferenceResults (snd ?g) (word_of_nat j) = Some r \<and> \<not> IsEmpty r"
      unfolding g by (simp add: o)
  qed
  have "Suc k + m \<le> length mds" using Suc.prems(3) by simp
  from Suc.IH [OF c' rest this]
  have "map (\<lambda>r. (frameId r, metaData r))
      (retrieved (fst (run model IsEmpty defaultResult (replicate m GetResult) (snd ?g)))) =
    map (\<lambda>j. (word_of_nat j, mds ! j)) [Suc k..<Suc k + m]" .
  moreover have "[k..<k + Suc m] = k # [Suc k..<Suc k + m]"
    by (simp add: upt_conv_Cons)
  ultimately show ?case
    using res f by (simp add: exec_def split_beta del: upt_Suc)
qed

lemma exec_keeps_entry:
  assumes "completedInferenceResults t key = Some r"
    and "ev \<noteq> GetResult \<or> key \<noteq> outputFrameId t"
  shows "completedInferenceResults (snd (exec model IsEmpty defaultResult ev t)) key = Some r"
proof (cases ev)
  case (SubmitData inputData md)
  then show ?thesis
    using assms(1)
    by (cases "isIdleRequestAvailable (requestsPool t)")
      (auto simp: exec_def split_beta submitData_rejected elim: submitData_accepted [of t model inputData md])
next
  case (Completion request getBlob)
  then show ?thesis
    using assms(1)
    by (auto simp: exec_def completion_def callback_def emplace_def Let_def
        split: option.splits sum.splits)
next
  case GetResult
  with assms(2) have "key \<noteq> outputFrameId t" by simp
  then show ?thesis
    using assms(1)
    by (auto simp: GetResult exec_def getResult_def getInferenceResult_def Let_def
        split: option.splits)
qed

lemma map_frameId:
  "map (\<lambda>r. (frameId r, metaData r)) xs = map (\<lambda>j. (word_of_nat j, f j)) js \<Longrightarrow>
   map frameId xs = map word_of_nat js"
proof -
  assume "map (\<lambda>r. (frameId r, metaData r)) xs = map (\<lambda>j. (word_of_nat j, f j)) js"
  then have "map fst (map (\<lambda>r. (frameId r, metaData r)) xs) =
             map fst (map (\<lambda>j. (word_of_nat j :: int64_t, f j)) js)"
    by simp
  then show ?thesis by (simp add: comp_def)
qed

text \<open>
  C1. A run of fewer than \<open>2^63\<close> events from the constructed pipeline numbers its
  accepted submissions 0, 1, 2, ... and retrieves results whose sequence numbers are
  0, 1, 2, ... in this order, whatever the order of the completions. When no callback
  threw and every started request has completed, calling \<open>getResult\<close> once for each
  accepted submission not yet retrieved brings the retrieved sequence numbers to exactly
  0 .. N-1, N the number of accepted submissions. A pending result leaves the map only by
  a \<open>getResult\<close> called while the output cursor equals its key: a result completed ahead
  of its turn stays in the map until every earlier one was retrieved. \<open>IsEmpty\<close> is a
  parameter, assumed as for C5.
\<close>

theorem results_in_submission_order:
  assumes e: "IsEmpty defaultResult"
    and ne: "\<forall>r. 0 \<le> sint (frameId r) \<and> outputsData r \<noteq> Map.empty \<longrightarrow> \<not> IsEmpty r"
    and names: "getOutputsNames model \<noteq> []"
    and len: "length evs < 2 ^ 63"
    and run: "run model IsEmpty defaultResult evs (newAsyncPipeline n) = (obs, s)"
  shows
    "map fst (accepted obs) = map word_of_nat [0..<length (accepted obs)] \<and>
     map frameId (retrieved obs) = map word_of_nat [0..<length (retrieved obs)] \<and>
     length (retrieved obs) \<le> length (accepted obs) \<and>
     ((\<forall>request getBlob. Completion request getBlob \<in> set evs \<longrightarrow>
         (\<forall>e. copyOutputs getBlob (getOutputsNames model) Map.empty \<noteq> Inl e)) \<and>
      started s = {} \<longrightarrow>
        map frameId (retrieved (obs @ fst (run model IsEmpty defaultResult
          (replicate (length (accepted obs) - length (retrieved obs)) GetResult) s))) =
        map word_of_nat [0..<length (accepted obs)]) \<and>
     (\<forall>ev t key r.
        completedInferenceResults t key = Some r \<and>
        completedInferenceResults (snd (exec model IsEmpty defaultResult ev t)) key \<noteq> Some r \<longrightarrow>
        ev = GetResult \<and> key = outputFrameId t)"
proof -
  let ?mds = "map snd (accepted obs)"
  let ?k = "length (retrieved obs)"
  let ?N = "length (accepted obs)"
  have obs: "obs = fst (run model IsEmpty defaultResult evs (newAsyncPipeline n))"
    and s: "s = snd (run model IsEmpty defaultResult evs (newAsyncPipeline n))"
    using run by simp_all
  have h: "history_ok obs s" unfolding obs s using e len by (rule run_history)
  then have c: "counted ?mds ?k s"
    and a: "map fst (accepted obs) = map word_of_nat [0..<?N]"
    and r: "map (\<lambda>r. (frameId r, metaData r)) (retrieved obs) =
       map (\<lambda>j. (word_of_nat j, ?mds ! j)) [0..<?k]"
    by (simp_all add: history_ok_def)
  have r': "map frameId (retrieved obs) = map word_of_nat [0..<?k]"
    using r by (rule map_frameId)
  have k: "?k \<le> ?N" using c by (simp add: counted_def)
  have w: "wellformed (getOutputsNames model) s"
    unfolding s by (rule run_wellformed) (rule wellformed_new)
  have live: "map frameId (retrieved (obs @ fst (run model IsEmpty defaultResult
          (replicate (?N - ?k) GetResult) s))) = map word_of_nat [0..<?N]"
    if nofail: "\<forall>request getBlob. Completion request getBlob \<in> set evs \<longrightarrow>
         (\<forall>e. copyOutputs getBlob (getOutputsNames model) Map.empty \<noteq> Inl e)"
      and fin: "started s = {}"
  proof -
    have "pending ?k ?N s"
      unfolding obs s using e ne names len nofail by (rule run_pending)
    with fin have "\<forall>j. ?k \<le> j \<and> j < ?N \<longrightarrow> completedInferenceResults s (word_of_nat j) \<noteq> None"
      by (simp add: pending_def)
    then have all: "\<forall>j. ?k \<le> j \<and> j < length ?mds \<longrightarrow>
       (\<exists>r. completedInferenceResults s (word_of_nat j) = Some r \<and> \<not> IsEmpty r)"
      using wellformed_nonempty [OF w names ne] by fastforce
    have "?k + (?N - ?k) \<le> length ?mds" using k by simp
    from drain [where IsEmpty = IsEmpty and defaultResult = defaultResult, OF e c all this,
        of model]
    have "map frameId (retrieved (fst (run model IsEmpty defaultResult
            (replicate (?N - ?k) GetResult) s))) = map word_of_nat [?k..<?k + (?N - ?k)]"
      by (rule map_frameId)
    moreover have "[0..<?N] = [0..<?k] @ [?k..<?k + (?N - ?k)]"
      using k upt_add_eq_append [of 0 ?k "?N - ?k"] by simp
    ultimately show ?thesis using r' by (simp add: retrieved_append)
  qed
  have held: "ev = GetResult \<and> key = outputFrameId t"
    if "completedInferenceResults t key = Some r \<and>
        completedInferenceResults (snd (exec model IsEmpty defaultResult ev t)) key \<noteq> Some r"
    for ev t key r
    using that exec_keeps_entry [of t key r ev model IsEmpty defaultResult] by blast
  from a r' k live held show ?thesis by blast
qed

theorem results_in_submission_order_witness:
  "retrieved (fst (run exampleModel exampleIsEmpty exampleDefaultResult
      [SubmitData 1 10, SubmitData 2 20, Completion 1 blobReady, GetResult, Completion 0 blobReady]
      (examplePipeline 2))) = [] \<and>
   map frameId (retrieved (
      fst (run exampleModel exampleIsEmpty exampleDefaultResult
        [SubmitData 1 10, SubmitData 2 20, Completion 1 blobReady, GetResult, Completion 0 blobReady]
        (examplePipeline 2)) @
      fst (run exampleModel exampleIsEmpty exampleDefaultResult [GetResult, GetResult]
        (snd (run exampleModel exampleIsEmpty exampleDefaultResult
          [SubmitData 1 10, SubmitData 2 20, Completion 1 blobReady, GetResult, Completion 0 blobReady]
          (examplePipeline 2)))))) = [0, 1]"
proof -
  let ?evs = "[SubmitData 1 10, SubmitData 2 20, Completion 1 blobReady, GetResult,
               Completion 0 blobReady] :: (nat, nat, nat, nat) event list"
  let ?run = "run exampleModel exampleIsEmpty exampleDefaultResult ?evs (examplePipeline 2)"
  have h1: "exampleIsEmpty exampleDefaultResult" by (simp add: example_defs)
  have h2: "\<forall>r. 0 \<le> sint (frameId r) \<and> outputsData r \<noteq> Map.empty \<longrightarrow> \<not> exampleIsEmpty r"
    by (simp add: exampleIsEmpty_def)
  have h3: "getOutputsNames exampleModel \<noteq> []" by (simp add: exampleModel_def)
  have h4: "length ?evs < 2 ^ 63" by simp
  have h5: "run exampleModel exampleIsEmpty exampleDefaultResult ?evs (newAsyncPipeline 2)
              = (fst ?run, snd ?run)"
    by (simp add: examplePipeline_def)
  have ok: "copyOutputs blobReady (getOutputsNames exampleModel) Map.empty \<noteq> Inl e" for e
    by (simp add: example_defs)
  have nofail: "\<forall>request getBlob. Completion request getBlob \<in> set ?evs \<longrightarrow>
         (\<forall>e. copyOutputs getBlob (getOutputsNames exampleModel) Map.empty \<noteq> Inl e)"
    using ok by auto
  have obs: "fst ?run = [Submitted 0 10, Submitted 1 20, Completed, Got None, Completed]"
    by (simp add: example_defs step_defs)
  have fin: "started (snd ?run) = {}"
    by (simp add: example_defs step_defs)
  have two: "replicate (length (accepted (fst ?run)) - length (retrieved (fst ?run))) GetResult
     = [GetResult, GetResult :: (nat, nat, nat, nat) event]"
    unfolding obs by (simp add: numeral_2_eq_2)
  from results_in_submission_order [where IsEmpty = exampleIsEmpty
      and defaultResult = exampleDefaultResult, OF h1 h2 h3 h4 h5] nofail fin
  have "map frameId (retrieved (fst ?run @ fst (run exampleModel exampleIsEmpty exampleDefaultResult
          (replicate (length (accepted (fst ?run)) - length (retrieved (fst ?run))) GetResult)
          (snd ?run)))) = map word_of_nat [0..<length (accepted (fst ?run))]"
    by blast
  then have "map frameId (retrieved (fst ?run @ fst (run exampleModel exampleIsEmpty
          exampleDefaultResult [GetResult, GetResult] (snd ?run)))) =
        map word_of_nat [0..<length (accepted (fst ?run))]"
    unfolding two .
  moreover have "map word_of_nat [0..<length (accepted (fst ?run))] = [0, 1 :: int64_t]"
    unfolding obs by (simp add: upt_rec)
  moreover have "retrieved (fst ?run) = []" unfolding obs by simp
  ultimately show ?thesis by simp
qed

text \<open>
  C7. In a run of fewer than \<open>2^63\<close> events from the constructed pipeline, the accepted
  submissions have distinct sequence numbers, and every result \<open>getResult\<close> returns
  carries the sequence number of an accepted submission together with the metadata that
  was passed to \<open>submitData\<close> in that submission.
\<close>

theorem metadata_round_trip:
  assumes e: "IsEmpty defaultResult"
    and len: "length evs < 2 ^ 63"
    and run: "run model IsEmpty defaultResult evs (newAsyncPipeline n) = (obs, s)"
  shows "distinct (map fst (accepted obs)) \<and>
         (\<forall>r \<in> set (retrieved obs). (frameId r, metaData r) \<in> set (accepted obs))"
proof -
  let ?mds = "map snd (accepted obs)"
  let ?k = "length (retrieved obs)"
  let ?N = "length (accepted obs)"
  have obs: "obs = fst (run model IsEmpty defaultResult evs (newAsyncPipeline n))"
    and s: "s = snd (run model IsEmpty defaultResult evs (newAsyncPipeline n))"
    using run by simp_all
  have h: "history_ok obs s" unfolding obs s using e len by (rule run_history)
  then have c: "counted ?mds ?k s"
    and a: "map fst (accepted obs) = map word_of_nat [0..<?N]"
    and r: "map (\<lambda>r. (frameId r, metaData r)) (retrieved obs) =
       map (\<lambda>j. (word_of_nat j, ?mds ! j)) [0..<?k]"
    by (simp_all add: history_ok_def)
  have k: "?k \<le> ?N" and bound: "?N < 2 ^ 63" using c by (simp_all add: counted_def)
  have "inj_on (word_of_nat :: nat \<Rightarrow> int64_t) (set [0..<?N])"
    using bound by (intro inj_onI of_nat_inj64) auto
  then have d: "distinct (map fst (accepted obs))"
    unfolding a by (simp add: distinct_map)
  have m: "(frameId res, metaData res) \<in> set (accepted obs)" if "res \<in> set (retrieved obs)" for res
  proof -
    from that have "(frameId res, metaData res) \<in> set (map (\<lambda>r. (frameId r, metaData r)) (retrieved obs))"
      by auto
    then obtain j where j: "j < ?k" "frameId res = word_of_nat j" "metaData res = ?mds ! j"
      unfolding r by auto
    with k have jN: "j < ?N" by simp
    then have "fst (accepted obs ! j) = word_of_nat j"
      using a by (metis (no_types, lifting) add_0 length_map nth_map nth_upt)
    moreover have "snd (accepted obs ! j) = ?mds ! j" using jN by simp
    ultimately have "accepted obs ! j = (frameId res, metaData res)"
      using j by (simp add: prod_eq_iff)
    then show ?thesis using jN by (metis nth_mem)
  qed
  from d m show ?thesis by blast
qed

theorem metadata_round_trip_witness:
  "map (\<lambda>r. (frameId r, metaData r)) (retrieved (fst
     (run exampleModel exampleIsEmpty exampleDefaultResult
        [SubmitData 1 10, SubmitData 2 20, Completion 1 blobReady, Completion 0 blobReady,
         GetResult, GetResult]
        (examplePipeline 2)))) = [(0, 10), (1, 20)] \<and>
   accepted (fst
     (run exampleModel exampleIsEmpty exampleDefaultResult
        [SubmitData 1 10, SubmitData 2 20, Completion 1 blobReady, Completion 0 blobReady,
         GetResult, GetResult]
        (examplePipeline 2))) = [(0, 10), (1, 20)]"
proof -
  let ?evs = "[SubmitData 1 10, SubmitData 2 20, Completion 1 blobReady, Completion 0 blobReady,
               GetResult, GetResult] :: (nat, nat, nat, nat) event list"
  let ?run = "run exampleModel exampleIsEmpty exampleDefaultResult ?evs (examplePipeline 2)"
  have h1: "exampleIsEmpty exampleDefaultResult" by (simp add: example_defs)
  have h4: "length ?evs < 2 ^ 63" by simp
  have h5: "run exampleModel exampleIsEmpty exampleDefaultResult ?evs (newAsyncPipeline 2)
              = (fst ?run, snd ?run)"
    by (simp add: examplePipeline_def)
  have obs: "fst ?run = [Submitted 0 10, Submitted 1 20, Completed, Completed,
      Got (Some \<lparr>frameId = 0, metaData = 10\<rparr>), Got (Some \<lparr>frameId = 1, metaData = 20\<rparr>)]"
    by (simp add: example_defs step_defs)
  from metadata_round_trip [where IsEmpty = exampleIsEmpty
      and defaultResult = exampleDefaultResult, OF h1 h4 h5]
  have "\<forall>r \<in> set (retrieved (fst ?run)). (frameId r, metaData r) \<in> set (accepted (fst ?run))"
    by blast
  then show ?thesis unfolding obs by simp
qed

subsection \<open>Slots are taken by submissions and released by completions\<close>

lemma slotsHeld_new: "slotsHeld (newAsyncPipeline n)"
  by (simp add: slotsHeld_def newAsyncPipeline_def)

lemma exec_slotsHeld:
  assumes "slotsHeld s"
  shows "slotsHeld (snd (exec model IsEmpty defaultResult ev s))"
proof (cases ev)
  case (SubmitData inputData md)
  show ?thesis
  proof (cases "isIdleRequestAvailable (requestsPool s)")
    case False
    then show ?thesis using assms by (simp add: SubmitData exec_def submitData_rejected)
  next
    case True
    then obtain request where "request < length (requestsPool s)"
      and "submitData model inputData md s =
      (inputFrameId s,
       s\<lparr>requestsPool := (requestsPool s)[request := Busy],
         completionCallback := (completionCallback s)(request \<mapsto>
            \<lparr>cb_frameID = inputFrameId s,
             cb_internalModelData = preprocess model inputData request,
             cb_metaData = md\<rparr>),
         inputFrameId := incrementFrameId (inputFrameId s),
         started := insert request (started s)\<rparr>)"
      by (rule submitData_accepted)
    then show ?thesis
      using assms by (auto simp: SubmitData exec_def slotsHeld_def nth_list_update)
  qed
next
  case (Completion request getBlob)
  then show ?thesis
    using assms
    by (auto simp: exec_def completion_def callback_def slotsHeld_def setRequestIdle_def
        nth_list_update Let_def split: option.splits sum.splits)
next
  case GetResult
  then show ?thesis
    using assms
    by (auto simp: exec_def getResult_def getInferenceResult_def slotsHeld_def Let_def
        split: option.splits)
qed

lemma run_slotsHeld:
  "slotsHeld s \<Longrightarrow> slotsHeld (snd (run model IsEmpty defaultResult evs s))"
  by (induction evs arbitrary: s) (simp_all add: split_beta exec_slotsHeld)

lemma idle_iff_count:
  "isIdleRequestAvailable pool \<longleftrightarrow> count_list pool Busy < length pool"
proof (induction pool)
  case Nil
  then show ?case by (simp add: isIdleRequestAvailable_def)
next
  case (Cons a pool)
  have "count_list pool Busy \<le> length pool" by (rule count_le_length)
  with Cons show ?case by (cases a) (auto simp: isIdleRequestAvailable_def)
qed

lemma count_list_update:
  "i < length pool \<Longrightarrow> pool ! i = Idle \<Longrightarrow>
   count_list (pool[i := Busy]) Busy = Suc (count_list pool Busy)"
proof (induction pool arbitrary: i)
  case Nil
  then show ?case by simp
next
  case (Cons a pool)
  then show ?case by (cases i) auto
qed

lemma exec_pool_count:
  assumes "\<not> isCompletion ev" and "wellformed names s"
  shows "length (requestsPool (snd (exec model IsEmpty defaultResult ev s))) = length (requestsPool s) \<and>
         count_list (requestsPool (snd (exec model IsEmpty defaultResult ev s))) Busy =
           count_list (requestsPool s) Busy + length (accepted [fst (exec model IsEmpty defaultResult ev s)])"
proof (cases ev)
  case (SubmitData inputData md)
  show ?thesis
  proof (cases "isIdleRequestAvailable (requestsPool s)")
    case False
    then show ?thesis by (simp add: SubmitData exec_def submitData_rejected)
  next
    case True
    then obtain request where "request < length (requestsPool s)"
      and "requestsPool s ! request = Idle"
      and "submitData model inputData md s =
      (inputFrameId s,
       s\<lparr>requestsPool := (requestsPool s)[request := Busy],
         completionCallback := (completionCallback s)(request \<mapsto>
            \<lparr>cb_frameID = inputFrameId s,
             cb_internalModelData = preprocess model inputData request,
             cb_metaData = md\<rparr>),
         inputFrameId := incrementFrameId (inputFrameId s),
         started := insert request (started s)\<rparr>)"
      by (rule submitData_accepted)
    moreover have "inputFrameId s \<noteq> - 1" using assms(2) by (auto simp: wellformed_def)
    ultimately show ?thesis
      by (simp add: SubmitData exec_def count_list_update)
  qed
next
  case (Completion request getBlob)
  then show ?thesis using assms(1) by simp
next
  case GetResult
  then show ?thesis
    by (auto simp: exec_def getResult_def getInferenceResult_def Let_def split: option.splits)
qed

lemma run_pool_count:
  assumes "\<forall>ev \<in> set evs. \<not> isCompletion ev"
  shows "wellformed (getOutputsNames model) s \<Longrightarrow>
    length (requestsPool (snd (run model IsEmpty defaultResult evs s))) = length (requestsPool s) \<and>
    count_list (requestsPool (snd (run model IsEmpty defaultResult evs s))) Busy =
      count_list (requestsPool s) Busy + length (accepted (fst (run model IsEmpty defaultResult evs s)))"
  using assms
proof (induction evs arbitrary: s)
  case Nil
  then show ?case by simp
next
  case (Cons ev evs)
  let ?s1 = "snd (exec model IsEmpty defaultResult ev s)"
  let ?ob = "fst (exec model IsEmpty defaultResult ev s)"
  have w: "wellformed (getOutputsNames model) ?s1" using Cons.prems(1) by (rule exec_wellformed)
  have ev: "\<not> isCompletion ev" using Cons.prems(2) by simp
  let ?obs = "fst (run model IsEmpty defaultResult evs ?s1)"
  have "length (accepted (?ob # ?obs)) = length (accepted [?ob]) + length (accepted ?obs)"
    by (cases ?ob) auto
  moreover have "\<forall>ev \<in> set evs. \<not> isCompletion ev" using Cons.prems(2) by simp
  ultimately show ?case
    using Cons.IH [OF w] exec_pool_count [OF ev Cons.prems(1), of model IsEmpty defaultResult]
    by (simp add: split_beta)
qed

lemma exec_stays_full:
  "\<not> isIdleRequestAvailable (requestsPool s) \<Longrightarrow> \<not> isCompletion ev \<Longrightarrow>
   \<not> isIdleRequestAvailable (requestsPool (snd (exec model IsEmpty defaultResult ev s)))"
  by (cases ev)
    (auto simp: exec_def submitData_rejected getResult_def getInferenceResult_def Let_def
      split: option.splits)

lemma run_stays_full:
  "\<not> isIdleRequestAvailable (requestsPool s) \<Longrightarrow> \<forall>ev \<in> set evs. \<not> isCompletion ev \<Longrightarrow>
   \<not> isIdleRequestAvailable (requestsPool (snd (run model IsEmpty defaultResult evs s)))"
  by (induction evs arbitrary: s) (simp_all add: split_beta exec_stays_full)

lemma submitData_sentinel_iff:
  assumes "wellformed names s"
  shows "fst (submitData model inputData md s) = - 1 \<longleftrightarrow> \<not> isIdleRequestAvailable (requestsPool s)"
proof (cases "isIdleRequestAvailable (requestsPool s)")
  case True
  moreover have "inputFrameId s \<noteq> - 1" using assms by (auto simp: wellformed_def)
  ultimately show ?thesis by (simp add: submitData_accepted_fst)
next
  case False
  then show ?thesis by (simp add: submitData_rejected)
qed

lemma completion_releases:
  assumes "slotsHeld s" and "request \<in> started s"
    and "\<forall>e. copyOutputs getBlob (getOutputsNames model) Map.empty \<noteq> Inl e"
  shows "isIdleRequestAvailable (requestsPool (completion model request getBlob s))"
proof -
  from assms(1,2) obtain c where c: "completionCallback s request = Some c"
    and len: "request < length (requestsPool s)"
    unfolding slotsHeld_def by blast
  from assms(3) obtain outs where
    outs: "copyOutputs getBlob (getOutputsNames model) Map.empty = Inr outs"
    by (cases "copyOutputs getBlob (getOutputsNames model) Map.empty") auto
  show ?thesis
    unfolding completion_succeeds [OF assms(2) c outs]
    using len by (simp add: isIdleRequestAvailable_def setRequestIdle_def set_update_memI)
qed

text \<open>
  C2 (as amended). In every state a run reaches from a pipeline constructed with \<open>C\<close>
  slots, \<open>submitData\<close> returns \<open>-1\<close> exactly when no slot is idle. After a run without
  completions (submissions and retrievals only) a submission is rejected exactly when
  \<open>C\<close> submissions were accepted, and never more than \<open>C\<close> are. Once the pool is full,
  a submission is rejected after any further submissions and retrievals; after the
  completion of a started request whose callback does not throw, it is accepted. The pool
  is modelled from the spec.
\<close>

theorem submitData_rejected_iff_pool_full:
  assumes run: "run model IsEmpty defaultResult evs (newAsyncPipeline C) = (obs, s)"
  shows
    "(fst (submitData model inputData md s) = - 1 \<longleftrightarrow>
        \<not> isIdleRequestAvailable (requestsPool s)) \<and>
     ((\<forall>ev \<in> set evs. \<not> isCompletion ev) \<longrightarrow>
        (fst (submitData model inputData md s) = - 1 \<longleftrightarrow> length (accepted obs) = C) \<and>
        length (accepted obs) \<le> C) \<and>
     (\<not> isIdleRequestAvailable (requestsPool s) \<and> (\<forall>ev \<in> set evs'. \<not> isCompletion ev) \<longrightarrow>
        fst (submitData model inputData md (snd (run model IsEmpty defaultResult evs' s))) = - 1) \<and>
     (request \<in> started s \<and>
      (\<forall>e. copyOutputs getBlob (getOutputsNames model) Map.empty \<noteq> Inl e) \<longrightarrow>
        fst (submitData model inputData md (completion model request getBlob s)) \<noteq> - 1)"
proof -
  have obs: "obs = fst (run model IsEmpty defaultResult evs (newAsyncPipeline C))"
    and s: "s = snd (run model IsEmpty defaultResult evs (newAsyncPipeline C))"
    using run by simp_all
  have w: "wellformed (getOutputsNames model) s"
    unfolding s by (rule run_wellformed) (rule wellformed_new)
  have h: "slotsHeld s"
    unfolding s by (rule run_slotsHeld) (rule slotsHeld_new)
  have a: "fst (submitData model inputData md s) = - 1 \<longleftrightarrow>
        \<not> isIdleRequestAvailable (requestsPool s)"
    using w by (rule submitData_sentinel_iff)
  have b: "(fst (submitData model inputData md s) = - 1 \<longleftrightarrow> length (accepted obs) = C) \<and>
        length (accepted obs) \<le> C"
    if "\<forall>ev \<in> set evs. \<not> isCompletion ev"
  proof -
    from run_pool_count [where model = model and IsEmpty = IsEmpty
        and defaultResult = defaultResult and evs = evs and s = "newAsyncPipeline C",
        OF that wellformed_new]
    have "length (requestsPool s) = C" and "count_list (requestsPool s) Busy = length (accepted obs)"
      unfolding obs s by (simp_all add: newAsyncPipeline_def newRequestsPool_def)
    moreover have "count_list (requestsPool s) Busy \<le> length (requestsPool s)"
      by (rule count_le_length)
    ultimately show ?thesis unfolding a idle_iff_count by auto
  qed
  have c: "fst (submitData model inputData md (snd (run model IsEmpty defaultResult evs' s))) = - 1"
    if "\<not> isIdleRequestAvailable (requestsPool s) \<and> (\<forall>ev \<in> set evs'. \<not> isCompletion ev)"
    using that run_stays_full [of s evs' model IsEmpty defaultResult]
    by (simp add: submitData_rejected)
  have d: "fst (submitData model inputData md (completion model request getBlob s)) \<noteq> - 1"
    if "request \<in> started s \<and>
      (\<forall>e. copyOutputs getBlob (getOutputsNames model) Map.empty \<noteq> Inl e)"
  proof -
    have idle: "isIdleRequestAvailable (requestsPool (completion model request getBlob s))"
      using h that by (intro completion_releases) auto
    have w': "wellformed (getOutputsNames model) (completion model request getBlob s)"
      using w by (rule completion_wellformed)
    from submitData_sentinel_iff [OF w', of model inputData md] idle show ?thesis by simp
  qed
  from a b c d show ?thesis by blast
qed

text \<open>
  C2 as stated fails: with one slot, after one accepted submission and no retrieval, the
  second submission is accepted when the first request has completed in between, for the
  callback sets the request idle.
\<close>

theorem rejected_without_retrievals_counterexample:
  "accepted (fst (run exampleModel exampleIsEmpty exampleDefaultResult
      [SubmitData 1 10, Completion 0 blobReady] (examplePipeline 1))) = [(0, 10)] \<and>
   retrieved (fst (run exampleModel exampleIsEmpty exampleDefaultResult
      [SubmitData 1 10, Completion 0 blobReady] (examplePipeline 1))) = [] \<and>
   fst (submitData exampleModel 2 20
     (snd (run exampleModel exampleIsEmpty exampleDefaultResult
        [SubmitData 1 10, Completion 0 blobReady] (examplePipeline 1)))) = 1"
  by (simp add: example_defs step_defs)

theorem submitData_rejected_iff_pool_full_witness:
  "fst (submitData exampleModel 2 20
     (snd (run exampleModel exampleIsEmpty exampleDefaultResult
        [SubmitData 1 10, GetResult] (examplePipeline 1)))) = - 1 \<and>
   fst (submitData exampleModel 2 20
     (snd (run exampleModel exampleIsEmpty exampleDefaultResult [GetResult, SubmitData 3 30]
       (snd (run exampleModel exampleIsEmpty exampleDefaultResult
          [SubmitData 1 10, GetResult] (examplePipeline 1)))))) = - 1 \<and>
   fst (submitData exampleModel 2 20
     (completion exampleModel 0 blobReady
       (snd (run exampleModel exampleIsEmpty exampleDefaultResult
          [SubmitData 1 10, GetResult] (examplePipeline 1))))) = 1"
proof -
  let ?evs = "[SubmitData 1 10, GetResult] :: (nat, nat, nat, nat) event list"
  let ?evs' = "[GetResult, SubmitData 3 30] :: (nat, nat, nat, nat) event list"
  let ?run = "run exampleModel exampleIsEmpty exampleDefaultResult ?evs (examplePipeline 1)"
  have r: "run exampleModel exampleIsEmpty exampleDefaultResult ?evs (newAsyncPipeline 1)
             = (fst ?run, snd ?run)"
    by (simp add: examplePipeline_def)
  have nc: "\<forall>ev \<in> set ?evs. \<not> isCompletion ev" and nc': "\<forall>ev \<in> set ?evs'. \<not> isCompletion ev"
    by simp_all
  have acc: "length (accepted (fst ?run)) = 1"
    by (simp add: example_defs step_defs)
  have st: "0 \<in> started (snd ?run)"
    by (simp add: example_defs step_defs)
  have ok: "\<forall>e. copyOutputs blobReady (getOutputsNames exampleModel) Map.empty \<noteq> Inl e"
    by (simp add: example_defs)
  note t = submitData_rejected_iff_pool_full [OF r, of 2 20 ?evs' 0 blobReady]
  from t nc acc have a: "fst (submitData exampleModel 2 20 (snd ?run)) = - 1" by blast
  with t have full: "\<not> isIdleRequestAvailable (requestsPool (snd ?run))" by blast
  with t nc' have b: "fst (submitData exampleModel 2 20
     (snd (run exampleModel exampleIsEmpty exampleDefaultResult ?evs' (snd ?run)))) = - 1"
    by blast
  from t st ok have c:
    "fst (submitData exampleModel 2 20 (completion exampleModel 0 blobReady (snd ?run))) \<noteq> - 1"
    by blast
  have "fst (submitData exampleModel 2 20 (completion exampleModel 0 blobReady (snd ?run))) = 1"
    by (simp add: example_defs step_defs)
  with a b c show ?thesis by blast
qed

subsection \<open>Accesses and the mutex\<close>

lemma waitForData_actions_protected: "unprotected False (waitForData_actions observed) = []"
  by (induction observed) (simp_all add: waitPredicate_actions_def)

text \<open>
  C8 (as amended). \<open>waitForData\<close> and the completion callback make every access with the
  mutex held, so the pending results and the exception slot are never accessed without
  it. \<open>submitData\<close> holds no lock at all: it reads and increments the input cursor and
  takes a slot from the pool without the mutex. \<open>getInferenceResult\<close> accesses the
  pending results with the mutex held and, when it found a result, writes the output
  cursor after releasing it.
\<close>

theorem mutex_guards_results_and_exception:
  "unprotected False (waitForData_actions observed) = [] \<and>
   unprotected False (callback_actions model getBlob s) = [] \<and>
   unprotected False (submitData_actions s) = submitData_actions s \<and>
   Read InputCursor \<in> set (submitData_actions s) \<and>
   set (submitData_actions s) \<subseteq>
     {Read InputCursor, Write InputCursor, Read SlotFlags, Write SlotFlags} \<and>
   set (unprotected False (getInferenceResult_actions IsEmpty defaultResult s)) \<subseteq>
     {Read OutputCursor, Write OutputCursor} \<and>
   (\<not> IsEmpty (fst (getInferenceResult IsEmpty defaultResult s)) \<longrightarrow>
      Write OutputCursor \<in>
        set (unprotected False (getInferenceResult_actions IsEmpty defaultResult s)))"
proof (intro conjI)
  show "unprotected False (waitForData_actions observed) = []"
    by (rule waitForData_actions_protected)
  show "unprotected False (callback_actions model getBlob s) = []"
    by (simp add: callback_actions_def split: sum.splits)
  show "unprotected False (submitData_actions s) = submitData_actions s"
    by (simp add: submitData_actions_def)
  show "Read InputCursor \<in> set (submitData_actions s)"
    by (simp add: submitData_actions_def)
  show "set (submitData_actions s) \<subseteq>
     {Read InputCursor, Write InputCursor, Read SlotFlags, Write SlotFlags}"
    by (auto simp: submitData_actions_def split: if_splits)
  show "set (unprotected False (getInferenceResult_actions IsEmpty defaultResult s)) \<subseteq>
     {Read OutputCursor, Write OutputCursor}"
    by (auto simp: getInferenceResult_actions_def Let_def split: option.splits if_splits)
  show "\<not> IsEmpty (fst (getInferenceResult IsEmpty defaultResult s)) \<longrightarrow>
      Write OutputCursor \<in>
        set (unprotected False (getInferenceResult_actions IsEmpty defaultResult s))"
    by (simp add: getInferenceResult_actions_def Let_def split: option.splits)
qed

text \<open>
  C8 as stated fails: the accesses of \<open>submitData\<close> on a fresh pipeline, and the cursor
  update of \<open>getInferenceResult\<close> when a result is pending, are made without the mutex.
\<close>

theorem every_access_under_mutex_counterexample:
  "unprotected False (submitData_actions (examplePipeline 1)) =
     [Read InputCursor, Read SlotFlags, Write SlotFlags, Read InputCursor, Write InputCursor,
      Read InputCursor] \<and>
   unprotected False (getInferenceResult_actions exampleIsEmpty exampleDefaultResult
     (snd (run exampleModel exampleIsEmpty exampleDefaultResult
        [SubmitData 1 10, Completion 0 blobReady] (examplePipeline 1)))) =
     [Write OutputCursor, Read OutputCursor, Write OutputCursor, Read OutputCursor]"
  by (simp add: submitData_actions_def getInferenceResult_actions_def example_defs step_defs)

theorem mutex_guards_results_and_exception_witness:
  "Write OutputCursor \<in> set (unprotected False
     (getInferenceResult_actions exampleIsEmpty exampleDefaultResult
        (snd (run exampleModel exampleIsEmpty exampleDefaultResult
           [SubmitData 1 10, Completion 0 blobReady] (examplePipeline 1))))) \<and>
   unprotected False (callback_actions exampleModel blobThrows
     (snd (submitData exampleModel 1 10 (examplePipeline 1)))) = []"
proof -
  let ?s = "snd (run exampleModel exampleIsEmpty exampleDefaultResult
           [SubmitData 1 10, Completion 0 blobReady] (examplePipeline 1))"
  have "\<not> exampleIsEmpty (fst (getInferenceResult exampleIsEmpty exampleDefaultResult ?s))"
    by (simp add: example_defs step_defs)
  with mutex_guards_results_and_exception [of "[]" exampleModel blobThrows ?s
      exampleIsEmpty exampleDefaultResult]
  have a: "Write OutputCursor \<in> set (unprotected False
     (getInferenceResult_actions exampleIsEmpty exampleDefaultResult ?s))"
    by blast
  from mutex_guards_results_and_exception [of "[]" exampleModel blobThrows
      "snd (submitData exampleModel 1 10 (examplePipeline 1))" exampleIsEmpty exampleDefaultResult]
  have "unprotected False (callback_actions exampleModel blobThrows
     (snd (submitData exampleModel 1 10 (examplePipeline 1)))) = []"
    by blast
  with a show ?thesis by blast
qed

end
